theory Spec2Isabelle
  imports Complex_Main
begin

section \<open>Values, errors and tokens\<close>

text \<open>
  The exceptions that the tokenizer of \<^verbatim>\<open>aria/tokenizer/tokenizer.py\<close> can raise.
  \<open>EmptySequenceError\<close> is the name used by the specification; no statement of the
  source raises it, and no definition below returns it.
\<close>

datatype error =
    AssertionError
  | IndexError
  | KeyError
  | NameError
  | TypeError
  | ValueError
  | ZeroDivisionError
  | EmptySequenceError

text \<open>
  A quantised value is a Python number: an \<open>int\<close> taken from a ladder, or the float
  \<^verbatim>\<open>float("inf")\<close> with which \<^verbatim>\<open>_find_closest_int\<close> initialises \<^verbatim>\<open>closest\<close>.
\<close>

datatype pynum = PInt int | PInf

text \<open>
  Tokens are Python values: a string (special tokens and the instrument names of the
  prefix), a pair \<^verbatim>\<open>("drum", p)\<close>, \<^verbatim>\<open>("dur", d)\<close>, \<^verbatim>\<open>("wait", w)\<close>, or a note triple
  \<^verbatim>\<open>(instrument, pitch, velocity)\<close>.
\<close>

datatype token =
    Str string
  | Tup2 string pynum
  | Tup3 string int pynum

definition bos_tok :: token where "bos_tok = Str ''<S>''"
definition eos_tok :: token where "eos_tok = Str ''<E>''"
definition pad_tok :: token where "pad_tok = Str ''<P>''"

section \<open>Quantizer\<close>

text \<open>\<^verbatim>\<open>diff < abs(closest - n)\<close>, where \<^verbatim>\<open>closest\<close> may be infinite.\<close>

fun diff_lt :: "int \<Rightarrow> pynum \<Rightarrow> int \<Rightarrow> bool" where
  "diff_lt d PInf n = True"
| "diff_lt d (PInt c) n = (d < \<bar>c - n\<bar>)"

text \<open>
  The \<^verbatim>\<open>while left <= right\<close> loop of \<^verbatim>\<open>_find_closest_int\<close>. The indices stay inside
  the list: the loop is entered with \<open>left = 0\<close> and \<open>right = len - 1\<close>, and
  \<open>left \<le> mid \<le> right\<close> in every iteration.
\<close>

function find_closest_loop :: "int \<Rightarrow> int list \<Rightarrow> int \<Rightarrow> int \<Rightarrow> pynum \<Rightarrow> pynum" where
  "find_closest_loop n sorted_list left right closest =
     (if left \<le> right then
        (let mid = (left + right) div 2;
             diff = \<bar>sorted_list ! nat mid - n\<bar>;
             closest' = (if diff_lt diff closest n then PInt (sorted_list ! nat mid) else closest)
         in if sorted_list ! nat mid < n
            then find_closest_loop n sorted_list (mid + 1) right closest'
            else find_closest_loop n sorted_list left (mid - 1) closest')
      else closest)"
  by pat_completeness auto
termination
  by (relation "measure (\<lambda>(n, xs, left, right, closest). nat (right - left + 1))") auto

definition find_closest_int :: "int \<Rightarrow> int list \<Rightarrow> pynum" where
  "find_closest_int n sorted_list =
     find_closest_loop n sorted_list 0 (int (length sorted_list) - 1) PInf"

declare find_closest_loop.simps [simp del]

section \<open>Tokenizer construction\<close>

text \<open>
  The \<^verbatim>\<open>tokenizer.lazy\<close> section of the configuration file read by \<^verbatim>\<open>load_config\<close>
  (\<^verbatim>\<open>aria/config\<close> is not part of the sources at hand): its entries are parameters.
\<close>

record config =
  cfg_num_steps :: int
  cfg_min_step :: int
  cfg_velocity_step :: int
  cfg_ignore_instruments :: "string \<rightharpoonup> bool"

text \<open>
  The attributes of a \<^verbatim>\<open>TokenizerLazy\<close> object that encoding and augmentation read.
  The vocabulary and the id maps are not modelled.
\<close>

record tokenizer =
  padding :: bool
  truncate_type :: string
  max_seq_len :: int
  stride_len :: "int option"
  ignore_instruments :: "string \<rightharpoonup> bool"
  min_time_step :: int
  time_step_quantizations :: "int list"
  max_time_step :: int
  velocity_step :: int
  velocity_quantizations :: "int list"
  max_velocity :: int

text \<open>The two assertions of \<^verbatim>\<open>Tokenizer.__init__\<close>.\<close>

definition Tokenizer_init :: "string \<Rightarrow> int \<Rightarrow> int option \<Rightarrow> error + unit" where
  "Tokenizer_init tt msl sl =
     (if tt \<notin> {''none'', ''default'', ''strided''} then Inl AssertionError
      else if tt = ''strided'' \<and> \<not> (case sl of None \<Rightarrow> False | Some s \<Rightarrow> 0 < s \<and> s < msl)
      then Inl AssertionError
      else Inr ())"

text \<open>\<^verbatim>\<open>int(127 / step)\<close>: true division, then truncation towards zero.\<close>

definition int_127_over :: "int \<Rightarrow> int" where
  "int_127_over step = (if 0 < step then 127 div step else - (127 div (- step)))"

text \<open>
  \<^verbatim>\<open>TokenizerLazy.__init__\<close>: the ladders are list comprehensions over \<^verbatim>\<open>range\<close>, and
  their maxima are read with \<^verbatim>\<open>[-1]\<close>, which raises on an empty ladder.
\<close>

definition TokenizerLazy_init ::
  "config \<Rightarrow> bool \<Rightarrow> string \<Rightarrow> int \<Rightarrow> int option \<Rightarrow> error + tokenizer" where
  "TokenizerLazy_init cfg pad tt msl sl =
     (case Tokenizer_init tt msl sl of
        Inl e \<Rightarrow> Inl e
      | Inr _ \<Rightarrow>
         (let tsq = map (\<lambda>i. cfg_min_step cfg * i) [0 .. cfg_num_steps cfg - 1]
          in if tsq = [] then Inl IndexError
             else if cfg_velocity_step cfg = 0 then Inl ZeroDivisionError
             else
               (let vq = map (\<lambda>i. i * cfg_velocity_step cfg)
                           [0 .. int_127_over (cfg_velocity_step cfg)]
                in if vq = [] then Inl IndexError
                   else Inr \<lparr> padding = pad, truncate_type = tt, max_seq_len = msl,
                              stride_len = sl,
                              ignore_instruments = cfg_ignore_instruments cfg,
                              min_time_step = cfg_min_step cfg,
                              time_step_quantizations = tsq,
                              max_time_step = last tsq,
                              velocity_step = cfg_velocity_step cfg,
                              velocity_quantizations = vq,
                              max_velocity = last vq \<rparr>)))"

definition quantize_time :: "tokenizer \<Rightarrow> int \<Rightarrow> pynum" where
  "quantize_time self time = find_closest_int time (time_step_quantizations self)"

definition quantize_velocity :: "tokenizer \<Rightarrow> int \<Rightarrow> pynum" where
  "quantize_velocity self velocity =
     (let velocity_quantized = find_closest_int velocity (velocity_quantizations self)
      in if velocity_quantized = PInt 0 \<and> velocity \<noteq> 0 then PInt (velocity_step self)
         else velocity_quantized)"

section \<open>Event streams\<close>

text \<open>
  The messages of a \<^verbatim>\<open>MidiDict\<close> (\<^verbatim>\<open>aria/data/midi.py\<close> is not part of the sources at
  hand), with the keys the tokenizer reads. Tempo messages carry no channel, as the one
  built by \<^verbatim>\<open>detokenize_midi_dict\<close>.
\<close>

record tempo_msg =
  tm_tick :: int
  tm_data :: int

record pedal_msg =
  pm_tick :: int
  pm_channel :: int
  pm_data :: int

record instrument_msg =
  im_channel :: int
  im_data :: int

record note_msg =
  nm_channel :: int
  nm_pitch :: int
  nm_velocity :: int
  nm_start :: int
  nm_end :: int

record midi_dict =
  tempo_msgs :: "tempo_msg list"
  pedal_msgs :: "pedal_msg list"
  instrument_msgs :: "instrument_msg list"
  note_msgs :: "note_msg list"
  ticks_per_beat :: int

section \<open>Channel filtering\<close>

definition instrument_classes :: "string list" where
  "instrument_classes =
     [''piano'', ''chromatic'', ''organ'', ''guitar'', ''bass'', ''strings'', ''ensemble'',
      ''brass'', ''reed'', ''pipe'', ''synth_lead'', ''synth_pad'', ''synth_effect'',
      ''ethnic'', ''percussive'', ''sfx'']"

text \<open>The dictionary \<^verbatim>\<open>program_to_instrument\<close>: eight programs per class, keys 0 to 127.\<close>

definition program_to_instrument :: "int \<rightharpoonup> string" where
  "program_to_instrument i =
     (if 0 \<le> i \<and> i \<le> 127 then Some (instrument_classes ! nat (i div 8)) else None)"

definition is_drum_channel :: "int \<Rightarrow> bool" where
  "is_drum_channel c = (c \<in> {9, 16})"

text \<open>
  \<^verbatim>\<open>programs_to_remove\<close>: the comprehension runs over \<^verbatim>\<open>range(1, 128)\<close> and looks every
  class name up in the configured dictionary.
\<close>

definition programs_to_remove :: "tokenizer \<Rightarrow> error + int list" where
  "programs_to_remove self =
     (if \<exists>i \<in> set [1 .. 127].
           (case program_to_instrument i of
              None \<Rightarrow> True
            | Some name \<Rightarrow> ignore_instruments self name = None)
      then Inl KeyError
      else Inr (filter (\<lambda>i. case program_to_instrument i of
                               None \<Rightarrow> False
                             | Some name \<Rightarrow> ignore_instruments self name = Some True)
                  [1 .. 127]))"

text \<open>
  \<^verbatim>\<open>_remove_instruments\<close>. Every message list is filtered with
  \<^verbatim>\<open>msg.get("channel", -1) not in channels_to_remove\<close>; a tempo message has no channel.
\<close>

definition remove_instruments :: "tokenizer \<Rightarrow> midi_dict \<Rightarrow> error + midi_dict" where
  "remove_instruments self md =
     (case programs_to_remove self of
        Inl e \<Rightarrow> Inl e
      | Inr progs \<Rightarrow>
         (let chans = map im_channel (filter (\<lambda>msg. im_data msg \<in> set progs) (instrument_msgs md));
              channels_to_remove = filter (\<lambda>i. i \<notin> {9, 16}) chans
          in Inr (md \<lparr> tempo_msgs := filter (\<lambda>msg. - 1 \<notin> set channels_to_remove) (tempo_msgs md),
                        pedal_msgs := filter (\<lambda>msg. pm_channel msg \<notin> set channels_to_remove) (pedal_msgs md),
                        instrument_msgs :=
                          filter (\<lambda>msg. im_channel msg \<notin> set channels_to_remove) (instrument_msgs md),
                        note_msgs := filter (\<lambda>msg. nm_channel msg \<notin> set channels_to_remove) (note_msgs md) \<rparr>)))"

section \<open>Pedal interval extractor\<close>

text \<open>
  The state of the scan: \<^verbatim>\<open>channel_to_pedal_intervals\<close>, a \<^verbatim>\<open>defaultdict(list)\<close>, is a
  total function with default \<open>[]\<close>; \<^verbatim>\<open>pedal_status\<close>, a dictionary that is iterated
  at the end, is an association list in insertion order.
\<close>

type_synonym pedal_state = "(int \<Rightarrow> (int \<times> int) list) \<times> (int \<times> int) list"

definition pedal_step :: "pedal_state \<Rightarrow> pedal_msg \<Rightarrow> pedal_state" where
  "pedal_step st pedal_msg =
     (let ivs = fst st; pedal_status = snd st;
          tick = pm_tick pedal_msg; channel = pm_channel pedal_msg; d = pm_data pedal_msg
      in case map_of pedal_status channel of
           None \<Rightarrow> if d = 1 then (ivs, pedal_status @ [(channel, tick)]) else st
         | Some start_tick \<Rightarrow>
             if d = 0
             then (ivs (channel := ivs channel @ [(start_tick, tick)]),
                   filter (\<lambda>kv. fst kv \<noteq> channel) pedal_status)
             else st)"

definition close_pedal :: "int \<Rightarrow> (int \<Rightarrow> (int \<times> int) list) \<Rightarrow> int \<times> int \<Rightarrow> (int \<Rightarrow> (int \<times> int) list)" where
  "close_pedal final_tick ivs kv = ivs (fst kv := ivs (fst kv) @ [(snd kv, final_tick)])"

definition build_pedal_intervals :: "midi_dict \<Rightarrow> error + (int \<Rightarrow> (int \<times> int) list)" where
  "build_pedal_intervals md =
     (let st = foldl pedal_step (\<lambda>c. [], []) (pedal_msgs md)
      in if note_msgs md = [] then Inl IndexError
         else Inr (foldl (close_pedal (nm_end (last (note_msgs md)))) (fst st) (snd st)))"

section \<open>Duration calculator\<close>

text \<open>
  \<^verbatim>\<open>mido.midifiles.units.tick2second\<close>: \<^verbatim>\<open>scale = tempo * 1e-6 / ticks_per_beat\<close>, then
  \<^verbatim>\<open>tick * scale\<close>. The floats of the source are idealised as exact rationals; the
  division raises when \<^verbatim>\<open>ticks_per_beat\<close> is zero.
\<close>

definition tick2second :: "int \<Rightarrow> int \<Rightarrow> int \<Rightarrow> error + rat" where
  "tick2second tick tempo tpb =
     (if tpb = 0 then Inl ZeroDivisionError
      else Inr (of_int tick * (of_int tempo * (1 / 1000000) / of_int tpb)))"

text \<open>Python's \<^verbatim>\<open>round\<close> of a float: to the nearest integer, a tie to the even one.\<close>

definition py_round :: "rat \<Rightarrow> int" where
  "py_round x =
     (let f = \<lfloor>x\<rfloor>; d = x - of_int f
      in if d < 1 / 2 then f else if 1 / 2 < d then f + 1 else if even f then f else f + 1)"

text \<open>
  The \<^verbatim>\<open>for idx, curr_msg in enumerate(tempo_msgs)\<close> loop with its \<^verbatim>\<open>break\<close>: the
  index of the first message with \<^verbatim>\<open>start_tick <= tick\<close>, the last index when there is
  none, and no binding of \<^verbatim>\<open>idx\<close> at all for an empty list.
\<close>

fun enumerate_idx :: "int \<Rightarrow> tempo_msg list \<Rightarrow> nat option" where
  "enumerate_idx start_tick [] = None"
| "enumerate_idx start_tick [curr_msg] = Some 0"
| "enumerate_idx start_tick (curr_msg # rest) =
     (if start_tick \<le> tm_tick curr_msg then Some 0
      else map_option Suc (enumerate_idx start_tick rest))"

text \<open>
  The loop over \<^verbatim>\<open>zip(tempo_msgs[idx:], tempo_msgs[idx + 1:])\<close>; it returns
  \<^verbatim>\<open>duration\<close> and \<^verbatim>\<open>curr_tick\<close>.
\<close>

fun segment_loop ::
  "int \<Rightarrow> int \<Rightarrow> (tempo_msg \<times> tempo_msg) list \<Rightarrow> rat \<Rightarrow> int \<Rightarrow> error + (rat \<times> int)" where
  "segment_loop end_tick tpb [] duration curr_tick = Inr (duration, curr_tick)"
| "segment_loop end_tick tpb ((curr_msg, next_msg) # rest) duration curr_tick =
     (let curr_tempo = tm_data curr_msg;
          delta_tick = (if end_tick < tm_tick next_msg then end_tick - curr_tick
                        else tm_tick next_msg - curr_tick)
      in case tick2second delta_tick curr_tempo tpb of
           Inl e \<Rightarrow> Inl e
         | Inr sec \<Rightarrow>
             if end_tick < tm_tick next_msg then Inr (duration + sec, curr_tick)
             else segment_loop end_tick tpb rest (duration + sec) (tm_tick next_msg))"

definition get_duration_ms :: "int \<Rightarrow> int \<Rightarrow> tempo_msg list \<Rightarrow> int \<Rightarrow> error + int" where
  "get_duration_ms start_tick end_tick tmsgs tpb =
     (case enumerate_idx start_tick tmsgs of
        None \<Rightarrow> Inl NameError
      | Some idx0 \<Rightarrow>
         (let idx = (if 0 < idx0 then idx0 - 1 else idx0)
          in case segment_loop end_tick tpb (zip (drop idx tmsgs) (drop (idx + 1) tmsgs))
                    0 start_tick of
               Inl e \<Rightarrow> Inl e
             | Inr (duration, curr_tick) \<Rightarrow>
                 if tm_tick (last tmsgs) < end_tick
                 then (case tick2second (end_tick - curr_tick) (tm_data (last tmsgs)) tpb of
                         Inl e \<Rightarrow> Inl e
                       | Inr sec \<Rightarrow> Inr (py_round ((duration + sec) * 1000)))
                 else Inr (py_round (duration * 1000))))"

text \<open>
  The elapsed time that the specification describes, written from its words: every tick
  of \<open>[start_tick, end_tick)\<close> lasts as long as the tempo in force at that tick says,
  the tempo in force being that of the last entry whose tick is not after it (the last
  entry also past the end of the map), and the sum is rounded once.
\<close>

definition tempo_at :: "tempo_msg list \<Rightarrow> int \<Rightarrow> int" where
  "tempo_at tmsgs t = tm_data (last (filter (\<lambda>m. tm_tick m \<le> t) tmsgs))"

definition spec_duration_ms :: "int \<Rightarrow> int \<Rightarrow> tempo_msg list \<Rightarrow> int \<Rightarrow> int" where
  "spec_duration_ms start_tick end_tick tmsgs tpb =
     py_round (of_int (sum_list (map (tempo_at tmsgs) [start_tick .. end_tick - 1]))
               / (1000 * of_int tpb))"

section \<open>Encoder\<close>

text \<open>
  Python's slice \<^verbatim>\<open>xs[a:b]\<close>: a negative bound counts from the end, and both bounds are
  clipped to the list.
\<close>

definition slice_bound :: "nat \<Rightarrow> int \<Rightarrow> nat" where
  "slice_bound len i = (if i < 0 then nat (int len + i) else min (nat i) len)"

definition py_slice :: "'a list \<Rightarrow> int \<Rightarrow> int \<Rightarrow> 'a list" where
  "py_slice xs a b =
     (let lo = slice_bound (length xs) a; hi = slice_bound (length xs) b
      in take (hi - lo) (drop lo xs))"

text \<open>
  The dictionary comprehension \<^verbatim>\<open>channel_to_instrument\<close>: a later declaration on a
  channel replaces an earlier one, and a program outside the table raises.
\<close>

fun channel_to_instrument ::
  "instrument_msg list \<Rightarrow> (int \<rightharpoonup> string) \<Rightarrow> error + (int \<rightharpoonup> string)" where
  "channel_to_instrument [] m = Inr m"
| "channel_to_instrument (msg # rest) m =
     (if is_drum_channel (im_channel msg) then channel_to_instrument rest m
      else case program_to_instrument (im_data msg) of
             None \<Rightarrow> Inl KeyError
           | Some name \<Rightarrow> channel_to_instrument rest (m (im_channel msg \<mapsto> name)))"

text \<open>
  The prefix \<^verbatim>\<open>present_instruments\<close>. Its last statement is \<^verbatim>\<open>list(set(...))\<close>, whose
  order is the iteration order of a Python set of strings; that order is not fixed by
  the program, so the conversion is the parameter \<open>list_of_set\<close>.
\<close>

fun non_drum_names :: "instrument_msg list \<Rightarrow> error + string list" where
  "non_drum_names [] = Inr []"
| "non_drum_names (msg # rest) =
     (if is_drum_channel (im_channel msg) then non_drum_names rest
      else case program_to_instrument (im_data msg) of
             None \<Rightarrow> Inl KeyError
           | Some name \<Rightarrow> (case non_drum_names rest of
                             Inl e \<Rightarrow> Inl e
                           | Inr names \<Rightarrow> Inr (name # names)))"

definition present_instruments ::
  "(string list \<Rightarrow> string list) \<Rightarrow> instrument_msg list \<Rightarrow> error + string list" where
  "present_instruments list_of_set imsgs =
     (case non_drum_names imsgs of
        Inl e \<Rightarrow> Inl e
      | Inr names \<Rightarrow>
         (let channels_used = set (map im_channel imsgs)
          in Inr (list_of_set (if 9 \<in> channels_used \<or> 16 \<in> channels_used
                               then names @ [''drums''] else names))))"

text \<open>The loop that updates \<^verbatim>\<open>_end_tick\<close> from the pedal intervals of the note's channel.\<close>

fun pedal_extend :: "(int \<times> int) list \<Rightarrow> int \<Rightarrow> int \<Rightarrow> int" where
  "pedal_extend [] start_tick end_tick = end_tick"
| "pedal_extend ((pedal_start, pedal_end) # rest) start_tick end_tick =
     pedal_extend rest start_tick
       (if pedal_start \<le> start_tick \<and> start_tick < pedal_end \<and> end_tick < pedal_end
        then pedal_end else end_tick)"

text \<open>
  The loop \<^verbatim>\<open>while _wait_duration > self.max_time_step\<close>; it returns
  \<^verbatim>\<open>tokenized_seq\<close> and the remaining \<^verbatim>\<open>_wait_duration\<close>. Nothing in the loop makes it
  end when the maximum is not positive, so a run that never returns is \<open>None\<close>.
\<close>

partial_function (option) wait_loop :: "int \<Rightarrow> int \<Rightarrow> token list \<Rightarrow> (token list \<times> int) option" where
  "wait_loop mts wait_duration tokenized_seq =
     (if mts < wait_duration
      then wait_loop mts (wait_duration - mts) (tokenized_seq @ [Tup2 ''wait'' (PInt mts)])
      else Some (tokenized_seq, wait_duration))"

text \<open>The tokens of one note message: the drum case and the instrument case.\<close>

definition note_tokens ::
  "tokenizer \<Rightarrow> tempo_msg list \<Rightarrow> int \<Rightarrow> (int \<rightharpoonup> string) \<Rightarrow> (int \<Rightarrow> (int \<times> int) list) \<Rightarrow>
   note_msg \<Rightarrow> error + token list" where
  "note_tokens self tmsgs tpb c2i c2p msg =
     (if is_drum_channel (nm_channel msg) then Inr [Tup2 ''drum'' (PInt (nm_pitch msg))]
      else case c2i (nm_channel msg) of
             None \<Rightarrow> Inl KeyError
           | Some instrument \<Rightarrow>
              (let end_tick = pedal_extend (c2p (nm_channel msg)) (nm_start msg) (nm_end msg)
               in case get_duration_ms (nm_start msg) end_tick tmsgs tpb of
                    Inl e \<Rightarrow> Inl e
                  | Inr note_duration \<Rightarrow>
                     (let velocity = quantize_velocity self (nm_velocity msg);
                          q = quantize_time self note_duration;
                          d = (if q = PInt 0 then PInt (min_time_step self) else q)
                      in Inr [Tup3 instrument (nm_pitch msg) velocity, Tup2 ''dur'' d])))"

text \<open>
  The wait tokens between a note and its successor: the quantised remainder is appended
  only when it is not zero.
\<close>

definition wait_tokens ::
  "tokenizer \<Rightarrow> tempo_msg list \<Rightarrow> int \<Rightarrow> note_msg \<Rightarrow> note_msg \<Rightarrow> token list \<Rightarrow>
   (error + token list) option" where
  "wait_tokens self tmsgs tpb msg next_msg tokenized_seq =
     (case get_duration_ms (nm_start msg) (nm_start next_msg) tmsgs tpb of
        Inl e \<Rightarrow> Some (Inl e)
      | Inr wait_duration \<Rightarrow>
         (case wait_loop (max_time_step self) wait_duration tokenized_seq of
            None \<Rightarrow> None
          | Some (seq, rest_duration) \<Rightarrow>
             (let q = quantize_time self rest_duration
              in if q \<noteq> PInt 0 then Some (Inr (seq @ [Tup2 ''wait'' q]))
                 else Some (Inr seq))))"

text \<open>The \<^verbatim>\<open>for i, msg in enumerate(midi_dict.note_msgs)\<close> loop.\<close>

fun tokenize_notes ::
  "tokenizer \<Rightarrow> tempo_msg list \<Rightarrow> int \<Rightarrow> (int \<rightharpoonup> string) \<Rightarrow> (int \<Rightarrow> (int \<times> int) list) \<Rightarrow>
   note_msg list \<Rightarrow> token list \<Rightarrow> (error + token list) option" where
  "tokenize_notes self tmsgs tpb c2i c2p [] tokenized_seq = Some (Inr tokenized_seq)"
| "tokenize_notes self tmsgs tpb c2i c2p (msg # rest) tokenized_seq =
     (case note_tokens self tmsgs tpb c2i c2p msg of
        Inl e \<Rightarrow> Some (Inl e)
      | Inr toks \<Rightarrow>
         (case rest of
            [] \<Rightarrow> Some (Inr (tokenized_seq @ toks))
          | next_msg # _ \<Rightarrow>
             (case wait_tokens self tmsgs tpb msg next_msg (tokenized_seq @ toks) of
                None \<Rightarrow> None
              | Some (Inl e) \<Rightarrow> Some (Inl e)
              | Some (Inr seq) \<Rightarrow> tokenize_notes self tmsgs tpb c2i c2p rest seq)))"

section \<open>Windower\<close>

text \<open>
  The \<^verbatim>\<open>while idx + self.max_seq_len - prefix_len < seq_len\<close> loop of the strided policy;
  it returns \<^verbatim>\<open>res\<close> and \<^verbatim>\<open>idx\<close>. Adding a missing stride raises; a stride that is not
  positive gives a run that never returns, which is \<open>None\<close>.
\<close>

partial_function (option) strided_loop ::
  "token list \<Rightarrow> token list \<Rightarrow> int \<Rightarrow> int option \<Rightarrow> int \<Rightarrow> token list list \<Rightarrow>
   (error + token list list \<times> int) option" where
  "strided_loop prefix body msl sl idx res =
     (if idx + msl - int (length prefix) < int (length body)
      then (case sl of
              None \<Rightarrow> Some (Inl TypeError)
            | Some s \<Rightarrow>
                strided_loop prefix body msl sl (idx + s)
                  (res @ [prefix @ py_slice body idx (idx + msl - int (length prefix))]))
      else Some (Inr (res, idx)))"

definition pad_to :: "int \<Rightarrow> token list \<Rightarrow> token list" where
  "pad_to msl seq = seq @ replicate (nat (msl - int (length seq))) pad_tok"

definition truncate_strided ::
  "tokenizer \<Rightarrow> token list \<Rightarrow> token list \<Rightarrow> (error + token list list) option" where
  "truncate_strided self prefix tokenized_seq =
     (let body = [bos_tok] @ tokenized_seq @ [eos_tok]
      in case strided_loop prefix body (max_seq_len self) (stride_len self) 0 [] of
           None \<Rightarrow> None
         | Some (Inl e) \<Rightarrow> Some (Inl e)
         | Some (Inr (res, idx)) \<Rightarrow>
            (let seq = prefix @ py_slice body idx (idx + max_seq_len self - int (length prefix));
                 seq' = (if padding self then pad_to (max_seq_len self) seq else seq)
             in Some (Inr (res @ [seq']))))"

text \<open>
  The three truncation policies. The constructor admits no other \<^verbatim>\<open>truncate_type\<close>;
  for any other value \<^verbatim>\<open>res\<close> would be unbound at the \<^verbatim>\<open>return\<close>.
\<close>

definition truncate :: "tokenizer \<Rightarrow> token list \<Rightarrow> token list \<Rightarrow> (error + token list list) option" where
  "truncate self prefix tokenized_seq =
     (if truncate_type self = ''none''
      then Some (Inr [prefix @ [bos_tok] @ tokenized_seq @ [eos_tok]])
      else if truncate_type self = ''default''
      then (let res0 = prefix @ [bos_tok] @ tokenized_seq @ [eos_tok];
                res1 = (if padding self then pad_to (max_seq_len self) res0 else res0)
            in Some (Inr [py_slice res1 0 (max_seq_len self)]))
      else if truncate_type self = ''strided''
      then truncate_strided self prefix tokenized_seq
      else Some (Inl NameError))"

text \<open>\<^verbatim>\<open>tokenize_midi_dict\<close>.\<close>

definition tokenize_midi_dict ::
  "(string list \<Rightarrow> string list) \<Rightarrow> tokenizer \<Rightarrow> midi_dict \<Rightarrow> (error + token list list) option" where
  "tokenize_midi_dict list_of_set self midi_dict0 =
     (let tpb = ticks_per_beat midi_dict0
      in case remove_instruments self midi_dict0 of
           Inl e \<Rightarrow> Some (Inl e)
         | Inr md \<Rightarrow>
            (case build_pedal_intervals md of
               Inl e \<Rightarrow> Some (Inl e)
             | Inr c2p \<Rightarrow>
                (case channel_to_instrument (instrument_msgs md) Map.empty of
                   Inl e \<Rightarrow> Some (Inl e)
                 | Inr c2i \<Rightarrow>
                    (case present_instruments list_of_set (instrument_msgs md) of
                       Inl e \<Rightarrow> Some (Inl e)
                     | Inr names \<Rightarrow>
                        (case tokenize_notes self (tempo_msgs md) tpb c2i c2p (note_msgs md) [] of
                           None \<Rightarrow> None
                         | Some (Inl e) \<Rightarrow> Some (Inl e)
                         | Some (Inr tokenized_seq) \<Rightarrow>
                             truncate self (map Str names) tokenized_seq)))))"

section \<open>Augmentation exporters\<close>












section \<open>Example inputs\<close>

text \<open>
  A configuration with time steps of 10 ms up to 100 ms and velocity steps of 10, in
  which no instrument class is ignored, and tokenizers built from it.
\<close>

definition example_config :: config where
  "example_config =
     \<lparr> cfg_num_steps = 11, cfg_min_step = 10, cfg_velocity_step = 10,
       cfg_ignore_instruments = map_of (map (\<lambda>name. (name, False)) instrument_classes) \<rparr>"

text \<open>The tokenizer that the constructor builds from \<open>example_config\<close>.\<close>

definition example_tokenizer :: "bool \<Rightarrow> string \<Rightarrow> int \<Rightarrow> int option \<Rightarrow> tokenizer" where
  "example_tokenizer pad tt msl sl =
     \<lparr> padding = pad, truncate_type = tt, max_seq_len = msl, stride_len = sl,
       ignore_instruments = cfg_ignore_instruments example_config,
       min_time_step = 10,
       time_step_quantizations = [0, 10, 20, 30, 40, 50, 60, 70, 80, 90, 100],
       max_time_step = 100,
       velocity_step = 10,
       velocity_quantizations = [0, 10, 20, 30, 40, 50, 60, 70, 80, 90, 100, 110, 120],
       max_velocity = 120 \<rparr>"

text \<open>A tokenized sequence of eight tokens: four drum notes and the waits between them.\<close>

definition eight_tokens :: "token list" where
  "eight_tokens =
     [Tup2 ''drum'' (PInt 36), Tup2 ''wait'' (PInt 100), Tup2 ''drum'' (PInt 38),
      Tup2 ''wait'' (PInt 100), Tup2 ''drum'' (PInt 36), Tup2 ''wait'' (PInt 100),
      Tup2 ''drum'' (PInt 38), Tup2 ''wait'' (PInt 50)]"

text \<open>
  A stream in which the pedal of channel 0 is pressed at tick 150, after the only note has
  ended at tick 100, and is never released.
\<close>

definition trailing_pedal :: midi_dict where
  "trailing_pedal =
     \<lparr> tempo_msgs = [\<lparr> tm_tick = 0, tm_data = 500000 \<rparr>],
       pedal_msgs = [\<lparr> pm_tick = 150, pm_channel = 0, pm_data = 1 \<rparr>],
       instrument_msgs = [\<lparr> im_channel = 0, im_data = 0 \<rparr>],
       note_msgs = [\<lparr> nm_channel = 0, nm_pitch = 60, nm_velocity = 64,
                      nm_start = 0, nm_end = 100 \<rparr>],
       ticks_per_beat = 480 \<rparr>"

text \<open>
  A stream in which the pedal of channel 0 is held from tick 10 to tick 20 and pressed
  again at tick 30, before the only note ends at tick 100.
\<close>

definition held_pedal :: midi_dict where
  "held_pedal =
     \<lparr> tempo_msgs = [\<lparr> tm_tick = 0, tm_data = 500000 \<rparr>],
       pedal_msgs = [\<lparr> pm_tick = 10, pm_channel = 0, pm_data = 1 \<rparr>,
                     \<lparr> pm_tick = 20, pm_channel = 0, pm_data = 0 \<rparr>,
                     \<lparr> pm_tick = 30, pm_channel = 0, pm_data = 1 \<rparr>],
       instrument_msgs = [\<lparr> im_channel = 0, im_data = 0 \<rparr>],
       note_msgs = [\<lparr> nm_channel = 0, nm_pitch = 60, nm_velocity = 64,
                      nm_start = 0, nm_end = 100 \<rparr>],
       ticks_per_beat = 480 \<rparr>"


text \<open>
  One order in which \<^verbatim>\<open>list(set(xs))\<close> may enumerate a set of strings: without
  duplicates, the last string first.
\<close>

definition reversed_set_order :: "string list \<Rightarrow> string list" where
  "reversed_set_order xs = rev (remdups xs)"

text \<open>
  Instrument declarations: a piano on channel 0, a guitar on channel 1, a second piano on
  channel 2 and the drums on channel 9.
\<close>

definition four_declarations :: "instrument_msg list" where
  "four_declarations =
     [\<lparr> im_channel = 0, im_data = 0 \<rparr>, \<lparr> im_channel = 1, im_data = 24 \<rparr>,
      \<lparr> im_channel = 2, im_data = 1 \<rparr>, \<lparr> im_channel = 9, im_data = 0 \<rparr>]"

text \<open>Two streams without notes: an empty one, and one that declares a piano and presses a pedal.\<close>

definition empty_stream :: midi_dict where
  "empty_stream =
     \<lparr> tempo_msgs = [], pedal_msgs = [], instrument_msgs = [], note_msgs = [],
       ticks_per_beat = 480 \<rparr>"

definition no_notes :: midi_dict where
  "no_notes =
     \<lparr> tempo_msgs = [\<lparr> tm_tick = 0, tm_data = 500000 \<rparr>],
       pedal_msgs = [\<lparr> pm_tick = 10, pm_channel = 0, pm_data = 1 \<rparr>],
       instrument_msgs = [\<lparr> im_channel = 0, im_data = 0 \<rparr>],
       note_msgs = [],
       ticks_per_beat = 480 \<rparr>"

text \<open>
  A piano on channel 0 playing two notes of 96 ticks, 240 ticks apart, at 480 ticks per
  beat and 500000 microseconds per beat: the notes last 100 ms and start 250 ms apart.
\<close>

definition two_notes :: midi_dict where
  "two_notes =
     \<lparr> tempo_msgs = [\<lparr> tm_tick = 0, tm_data = 500000 \<rparr>],
       pedal_msgs = [],
       instrument_msgs = [\<lparr> im_channel = 0, im_data = 0 \<rparr>],
       note_msgs = [\<lparr> nm_channel = 0, nm_pitch = 60, nm_velocity = 64,
                      nm_start = 0, nm_end = 96 \<rparr>,
                    \<lparr> nm_channel = 0, nm_pitch = 62, nm_velocity = 64,
                      nm_start = 240, nm_end = 336 \<rparr>],
       ticks_per_beat = 480 \<rparr>"

text \<open>
  A tempo map that starts at 500000 microseconds per beat and changes to 1000000 at tick
  480.
\<close>

definition two_tempos :: "tempo_msg list" where
  "two_tempos = [\<lparr> tm_tick = 0, tm_data = 500000 \<rparr>, \<lparr> tm_tick = 480, tm_data = 1000000 \<rparr>]"

section \<open>Invariants\<close>

text \<open>
  The invariant of the pedal scan, for the messages \<open>msgs\<close> still to come and an order
  \<open>R\<close> on ticks: the intervals of a channel follow one another, each is ordered by
  \<open>R\<close> and ends before every coming message, and an open pedal was pressed after the
  intervals of its channel and before every coming message.
\<close>

definition pedal_inv ::
  "(int \<Rightarrow> int \<Rightarrow> bool) \<Rightarrow> pedal_msg list \<Rightarrow> pedal_state \<Rightarrow> bool" where
  "pedal_inv R msgs st \<longleftrightarrow>
     (\<forall>c. sorted_wrt (\<lambda>a b. snd a \<le> fst b) (fst st c))
   \<and> (\<forall>c. \<forall>iv \<in> set (fst st c). R (fst iv) (snd iv))
   \<and> (\<forall>c. \<forall>iv \<in> set (fst st c). \<forall>m \<in> set msgs. snd iv \<le> pm_tick m)
   \<and> (\<forall>kv \<in> set (snd st). \<forall>m \<in> set msgs. R (snd kv) (pm_tick m))
   \<and> (\<forall>kv \<in> set (snd st). \<forall>iv \<in> set (fst st (fst kv)). snd iv \<le> snd kv)
   \<and> distinct (map fst (snd st))"

text \<open>
  A token that is not a wait token, or a wait token whose value is a member of the time
  ladder and at most the ladder's maximum.
\<close>

definition wait_ok :: "tokenizer \<Rightarrow> token \<Rightarrow> bool" where
  "wait_ok self tok \<longleftrightarrow>
     (\<forall>v. tok = Tup2 ''wait'' v \<longrightarrow>
        (\<exists>n. v = PInt n \<and> n \<in> set (time_step_quantizations self) \<and> n \<le> max_time_step self))"

section \<open>Properties of the quantizer\<close>

text \<open>
  The invariant of the binary search: the value returned is at least as close to \<open>n\<close>
  as the candidate it started with and as every element between the two bounds.
\<close>

lemma find_closest_loop_min:
  assumes "sorted xs" "0 \<le> left" "right < int (length xs)"
    and "closest = PInf \<longrightarrow> left \<le> right"
  shows "\<exists>c. find_closest_loop n xs left right closest = PInt c
           \<and> (c \<in> set xs \<or> closest = PInt c)
           \<and> (\<forall>i. left \<le> i \<and> i \<le> right \<longrightarrow> \<bar>c - n\<bar> \<le> \<bar>xs ! nat i - n\<bar>)
           \<and> (\<forall>d. closest = PInt d \<longrightarrow> \<bar>c - n\<bar> \<le> \<bar>d - n\<bar>)"
  using assms
proof (induction n xs left right closest rule: find_closest_loop.induct)
  case (1 n xs left right closest)
  show ?case
  proof (cases "left \<le> right")
    case False
    with "1.prems" obtain d where d: "closest = PInt d" by (cases closest) auto
    from False d show ?thesis
      by (simp add: find_closest_loop.simps [of n xs left right])
  next
    case True
    define mid where "mid = (left + right) div 2"
    define diff where "diff = \<bar>xs ! nat mid - n\<bar>"
    define closest' where
      "closest' = (if diff_lt diff closest n then PInt (xs ! nat mid) else closest)"
    define v where "v = xs ! nat mid"
    have mid: "left \<le> mid" "mid \<le> right" using True by (auto simp: mid_def)
    have midlen: "nat mid < length xs" using mid "1.prems" by auto
    have vin: "v \<in> set xs" using midlen by (simp add: v_def)
    have "\<exists>e. closest' = PInt e \<and> (e \<in> set xs \<or> closest = PInt e)
      \<and> \<bar>e - n\<bar> \<le> \<bar>v - n\<bar> \<and> (\<forall>d. closest = PInt d \<longrightarrow> \<bar>e - n\<bar> \<le> \<bar>d - n\<bar>)"
      using vin by (cases closest) (auto simp: closest'_def diff_def v_def)
    then obtain e where e: "closest' = PInt e" "e \<in> set xs \<or> closest = PInt e"
      "\<bar>e - n\<bar> \<le> \<bar>v - n\<bar>" "\<forall>d. closest = PInt d \<longrightarrow> \<bar>e - n\<bar> \<le> \<bar>d - n\<bar>"
      by blast
    show ?thesis
    proof (cases "v < n")
      case lt: True
      have step: "find_closest_loop n xs left right closest =
                  find_closest_loop n xs (mid + 1) right closest'"
        using True lt
        by (simp add: find_closest_loop.simps [of n xs left right] Let_def mid_def v_def closest'_def diff_def)
      have "\<exists>c. find_closest_loop n xs (mid + 1) right closest' = PInt c
           \<and> (c \<in> set xs \<or> closest' = PInt c)
           \<and> (\<forall>i. mid + 1 \<le> i \<and> i \<le> right \<longrightarrow> \<bar>c - n\<bar> \<le> \<bar>xs ! nat i - n\<bar>)
           \<and> (\<forall>d. closest' = PInt d \<longrightarrow> \<bar>c - n\<bar> \<le> \<bar>d - n\<bar>)"
        by (rule "1.IH"(1) [OF True mid_def diff_def closest'_def lt [unfolded v_def]])
           (use "1.prems" mid e(1) in auto)
      then obtain c where c: "find_closest_loop n xs (mid + 1) right closest' = PInt c"
        "c \<in> set xs \<or> closest' = PInt c"
        "\<forall>i. mid + 1 \<le> i \<and> i \<le> right \<longrightarrow> \<bar>c - n\<bar> \<le> \<bar>xs ! nat i - n\<bar>"
        "\<bar>c - n\<bar> \<le> \<bar>e - n\<bar>"
        using e(1) by auto
      have low: "\<bar>c - n\<bar> \<le> \<bar>xs ! nat i - n\<bar>" if "left \<le> i" "i \<le> mid" for i
      proof -
        have "nat i \<le> nat mid" using that by simp
        then have "xs ! nat i \<le> v"
          using \<open>sorted xs\<close> midlen by (simp add: v_def sorted_nth_mono)
        then show ?thesis using lt c(4) e(3) by linarith
      qed
      have "\<forall>i. left \<le> i \<and> i \<le> right \<longrightarrow> \<bar>c - n\<bar> \<le> \<bar>xs ! nat i - n\<bar>"
      proof (intro allI impI)
        fix i assume "left \<le> i \<and> i \<le> right"
        then show "\<bar>c - n\<bar> \<le> \<bar>xs ! nat i - n\<bar>"
          using low [of i] c(3) by (cases "i \<le> mid") auto
      qed
      moreover have "c \<in> set xs \<or> closest = PInt c" using c(2) e(1,2) by auto
      moreover have "\<forall>d. closest = PInt d \<longrightarrow> \<bar>c - n\<bar> \<le> \<bar>d - n\<bar>"
        using c(4) e(4) by fastforce
      ultimately show ?thesis using step c(1) by simp
    next
      case ge: False
      have step: "find_closest_loop n xs left right closest =
                  find_closest_loop n xs left (mid - 1) closest'"
        using True ge
        by (simp add: find_closest_loop.simps [of n xs left right] Let_def mid_def v_def closest'_def diff_def)
      have "\<exists>c. find_closest_loop n xs left (mid - 1) closest' = PInt c
           \<and> (c \<in> set xs \<or> closest' = PInt c)
           \<and> (\<forall>i. left \<le> i \<and> i \<le> mid - 1 \<longrightarrow> \<bar>c - n\<bar> \<le> \<bar>xs ! nat i - n\<bar>)
           \<and> (\<forall>d. closest' = PInt d \<longrightarrow> \<bar>c - n\<bar> \<le> \<bar>d - n\<bar>)"
        by (rule "1.IH"(2) [OF True mid_def diff_def closest'_def ge [unfolded v_def]])
           (use "1.prems" mid e(1) in auto)
      then obtain c where c: "find_closest_loop n xs left (mid - 1) closest' = PInt c"
        "c \<in> set xs \<or> closest' = PInt c"
        "\<forall>i. left \<le> i \<and> i \<le> mid - 1 \<longrightarrow> \<bar>c - n\<bar> \<le> \<bar>xs ! nat i - n\<bar>"
        "\<bar>c - n\<bar> \<le> \<bar>e - n\<bar>"
        using e(1) by auto
      have high: "\<bar>c - n\<bar> \<le> \<bar>xs ! nat i - n\<bar>" if "mid \<le> i" "i \<le> right" for i
      proof -
        have "nat mid \<le> nat i" "nat i < length xs" using that "1.prems" mid by auto
        then have "v \<le> xs ! nat i"
          using \<open>sorted xs\<close> by (simp add: v_def sorted_nth_mono)
        then show ?thesis using ge c(4) e(3) by linarith
      qed
      have "\<forall>i. left \<le> i \<and> i \<le> right \<longrightarrow> \<bar>c - n\<bar> \<le> \<bar>xs ! nat i - n\<bar>"
      proof (intro allI impI)
        fix i assume "left \<le> i \<and> i \<le> right"
        then show "\<bar>c - n\<bar> \<le> \<bar>xs ! nat i - n\<bar>"
          using high [of i] c(3) by (cases "mid \<le> i") auto
      qed
      moreover have "c \<in> set xs \<or> closest = PInt c" using c(2) e(1,2) by auto
      moreover have "\<forall>d. closest = PInt d \<longrightarrow> \<bar>c - n\<bar> \<le> \<bar>d - n\<bar>"
        using c(4) e(4) by fastforce
      ultimately show ?thesis using step c(1) by simp
    qed
  qed
qed

text \<open>The search returns a nearest element of a non-empty ascending list.\<close>

lemma find_closest_int_min:
  assumes "sorted ladder" and "ladder \<noteq> []"
  shows "\<exists>c. find_closest_int n ladder = PInt c \<and> c \<in> set ladder
              \<and> (\<forall>y \<in> set ladder. \<bar>c - n\<bar> \<le> \<bar>y - n\<bar>)"
proof -
  have "\<exists>c. find_closest_loop n ladder 0 (int (length ladder) - 1) PInf = PInt c
           \<and> (c \<in> set ladder \<or> PInf = PInt c)
           \<and> (\<forall>i. 0 \<le> i \<and> i \<le> int (length ladder) - 1 \<longrightarrow> \<bar>c - n\<bar> \<le> \<bar>ladder ! nat i - n\<bar>)
           \<and> (\<forall>d. PInf = PInt d \<longrightarrow> \<bar>c - n\<bar> \<le> \<bar>d - n\<bar>)"
    by (rule find_closest_loop_min) (use assms in auto)
  then obtain c where c: "find_closest_int n ladder = PInt c" "c \<in> set ladder"
    and le: "\<And>i. 0 \<le> i \<Longrightarrow> i \<le> int (length ladder) - 1 \<Longrightarrow> \<bar>c - n\<bar> \<le> \<bar>ladder ! nat i - n\<bar>"
    by (auto simp: find_closest_int_def)
  have "\<bar>c - n\<bar> \<le> \<bar>y - n\<bar>" if "y \<in> set ladder" for y
  proof -
    from that obtain k where "k < length ladder" "ladder ! k = y"
      by (auto simp: in_set_conv_nth)
    then show ?thesis using le [of "int k"] by auto
  qed
  with c show ?thesis by blast
qed




section \<open>Properties of constructed tokenizers\<close>

text \<open>What the constructor stores, and the shape of the two ladders.\<close>

lemma init_record:
  assumes "TokenizerLazy_init cfg pad tt msl sl = Inr tk"
  shows "Tokenizer_init tt msl sl = Inr ()
       \<and> map (\<lambda>i. cfg_min_step cfg * i) [0 .. cfg_num_steps cfg - 1] \<noteq> []
       \<and> cfg_velocity_step cfg \<noteq> 0
       \<and> map (\<lambda>i. i * cfg_velocity_step cfg) [0 .. int_127_over (cfg_velocity_step cfg)] \<noteq> []
       \<and> tk = \<lparr> padding = pad, truncate_type = tt, max_seq_len = msl, stride_len = sl,
                 ignore_instruments = cfg_ignore_instruments cfg,
                 min_time_step = cfg_min_step cfg,
                 time_step_quantizations =
                   map (\<lambda>i. cfg_min_step cfg * i) [0 .. cfg_num_steps cfg - 1],
                 max_time_step =
                   last (map (\<lambda>i. cfg_min_step cfg * i) [0 .. cfg_num_steps cfg - 1]),
                 velocity_step = cfg_velocity_step cfg,
                 velocity_quantizations =
                   map (\<lambda>i. i * cfg_velocity_step cfg) [0 .. int_127_over (cfg_velocity_step cfg)],
                 max_velocity =
                   last (map (\<lambda>i. i * cfg_velocity_step cfg)
                          [0 .. int_127_over (cfg_velocity_step cfg)]) \<rparr>"
proof (cases "Tokenizer_init tt msl sl")
  case (Inl e)
  with assms show ?thesis by (simp add: TokenizerLazy_init_def)
next
  case (Inr u)
  with assms show ?thesis
    by (simp add: TokenizerLazy_init_def Let_def split: if_splits)
qed

lemma init_velocity:
  assumes "TokenizerLazy_init cfg pad tt msl sl = Inr tk"
  shows "velocity_step tk = cfg_velocity_step cfg"
    and "velocity_quantizations tk =
           map (\<lambda>i. i * cfg_velocity_step cfg) [0 .. int_127_over (cfg_velocity_step cfg)]"
    and "max_velocity tk = last (velocity_quantizations tk)"
    and "cfg_velocity_step cfg \<noteq> 0"
    and "0 \<le> int_127_over (cfg_velocity_step cfg)"
  using init_record [OF assms] by simp_all

lemma init_time:
  assumes "TokenizerLazy_init cfg pad tt msl sl = Inr tk"
  shows "min_time_step tk = cfg_min_step cfg"
    and "time_step_quantizations tk = map (\<lambda>i. cfg_min_step cfg * i) [0 .. cfg_num_steps cfg - 1]"
    and "max_time_step tk = last (time_step_quantizations tk)"
    and "1 \<le> cfg_num_steps cfg"
  using init_record [OF assms] by simp_all

lemma init_other:
  assumes "TokenizerLazy_init cfg pad tt msl sl = Inr tk"
  shows "padding tk = pad" "truncate_type tk = tt" "max_seq_len tk = msl" "stride_len tk = sl"
    and "ignore_instruments tk = cfg_ignore_instruments cfg"
    and "Tokenizer_init tt msl sl = Inr ()"
  using init_record [OF assms] by simp_all

lemma sorted_multiples: "0 \<le> (s::int) \<Longrightarrow> sorted (map (\<lambda>i. i * s) [a .. b])"
proof -
  assume s: "0 \<le> s"
  have "sorted_wrt (\<lambda>x y. x * s \<le> y * s) [a .. b]"
  proof (rule sorted_wrt_mono_rel [of _ "(\<le>)"])
    show "x * s \<le> y * s" if "x \<le> y" for x y :: int
      using that s by (rule mult_right_mono)
    show "sorted [a .. b]" by simp
  qed
  then show ?thesis by (simp add: sorted_map)
qed

lemma sorted_multiples_left: "0 \<le> (s::int) \<Longrightarrow> sorted (map (\<lambda>i. s * i) [a .. b])"
  using sorted_multiples [of s a b] by (simp add: mult.commute)

lemma int_127_over_neg: "s < 0 \<Longrightarrow> int_127_over s \<le> 0"
  by (simp add: int_127_over_def pos_imp_zdiv_nonneg_iff)



lemma example_init:
  assumes "Tokenizer_init tt msl sl = Inr ()"
  shows "TokenizerLazy_init example_config pad tt msl sl = Inr (example_tokenizer pad tt msl sl)"
proof -
  have k: "int_127_over 10 = 12" by (simp add: int_127_over_def)
  have c: "cfg_num_steps example_config = 11" "cfg_min_step example_config = 10"
    "cfg_velocity_step example_config = 10"
    by (simp_all add: example_config_def)
  show ?thesis
    by (simp add: TokenizerLazy_init_def assms c k Let_def upto.simps example_tokenizer_def)
qed

lemma velocity_ladder_cases:
  assumes "TokenizerLazy_init cfg pad tt msl sl = Inr tk"
    and "c \<in> set (velocity_quantizations tk)"
  shows "c = 0 \<or> (0 < velocity_step tk \<and> velocity_step tk \<in> set (velocity_quantizations tk)
                  \<and> (\<exists>i \<ge> 1. c = i * velocity_step tk))"
proof -
  let ?s = "cfg_velocity_step cfg"
  let ?k = "int_127_over ?s"
  note iv = init_velocity [OF assms(1)]
  from assms(2) obtain i where i: "0 \<le> i" "i \<le> ?k" "c = i * ?s"
    by (auto simp: iv(2))
  show ?thesis
  proof (cases "i = 0")
    case True
    then show ?thesis using i by simp
  next
    case False
    then have i1: "1 \<le> i" using i by simp
    have "0 < ?s"
    proof (rule ccontr)
      assume "\<not> 0 < ?s"
      then have "?s < 0" using iv(4) by simp
      then have "?k \<le> 0" by (rule int_127_over_neg)
      then show False using i i1 by simp
    qed
    moreover have "?s \<in> set (velocity_quantizations tk)"
      using i i1 by (auto simp: iv(2) image_iff intro!: bexI [of _ 1])
    ultimately show ?thesis using i i1 iv(1) by auto
  qed
qed

lemma zero_in_velocity_ladder:
  assumes "TokenizerLazy_init cfg pad tt msl sl = Inr tk"
  shows "0 \<in> set (velocity_quantizations tk)"
  using init_velocity [OF assms] by (auto simp: image_iff intro!: bexI [of _ 0])

lemma sorted_velocity_ladder:
  assumes "TokenizerLazy_init cfg pad tt msl sl = Inr tk"
  shows "sorted (velocity_quantizations tk)" "velocity_quantizations tk \<noteq> []"
proof -
  note iv = init_velocity [OF assms]
  let ?s = "cfg_velocity_step cfg"
  show "sorted (velocity_quantizations tk)"
  proof (cases "0 \<le> ?s")
    case True
    then show ?thesis by (simp add: iv(2) sorted_multiples)
  next
    case False
    then have "int_127_over ?s \<le> 0" by (simp add: int_127_over_neg)
    with iv(5) have "int_127_over ?s = 0" by simp
    then show ?thesis by (simp add: iv(2))
  qed
  show "velocity_quantizations tk \<noteq> []" using iv(5) by (simp add: iv(2))
qed

text \<open>
  C6: for a tokenizer built by the constructor and a non-zero velocity for which 0 is a
  nearest value of the velocity ladder, \<^verbatim>\<open>_quantize_velocity\<close> returns the velocity step
  and not 0; the velocity step is the least of the non-zero values of the ladder.
\<close>

theorem quantize_velocity_floor:
  assumes init: "TokenizerLazy_init cfg pad tt msl sl = Inr tk"
    and nz: "velocity \<noteq> 0"
    and nearest: "\<forall>y \<in> set (velocity_quantizations tk). \<bar>0 - velocity\<bar> \<le> \<bar>y - velocity\<bar>"
  shows "quantize_velocity tk velocity = PInt (velocity_step tk)
         \<and> (\<forall>y \<in> set (velocity_quantizations tk). y \<noteq> 0 \<longrightarrow> velocity_step tk \<le> y)"
proof -
  let ?s = "velocity_step tk"
  let ?L = "velocity_quantizations tk"
  obtain c where c: "find_closest_int velocity ?L = PInt c" "c \<in> set ?L"
    "\<forall>y \<in> set ?L. \<bar>c - velocity\<bar> \<le> \<bar>y - velocity\<bar>"
    using find_closest_int_min [OF sorted_velocity_ladder [OF init]] by blast
  have eq: "\<bar>c - velocity\<bar> = \<bar>velocity\<bar>"
    using c(2,3) nearest zero_in_velocity_ladder [OF init] by fastforce
  have "quantize_velocity tk velocity = PInt ?s"
  proof (cases "c = 0")
    case True
    then show ?thesis using c(1) nz by (simp add: quantize_velocity_def)
  next
    case False
    with velocity_ladder_cases [OF init c(2)] obtain i where
      i: "0 < ?s" "?s \<in> set ?L" "1 \<le> i" "c = i * ?s"
      by blast
    have c2: "c = 2 * velocity" using eq False nz by linarith
    have "\<bar>velocity\<bar> \<le> \<bar>?s - velocity\<bar>" using nearest i(2) by fastforce
    moreover have "0 < i * ?s" using i(1,3) by (intro mult_pos_pos) auto
    then have "0 < velocity" using c2 i(4) by linarith
    ultimately have "2 * velocity \<le> ?s" using i(1) by linarith
    then have "i * ?s \<le> 1 * ?s" using c2 i(4) by simp
    then have "i \<le> 1" using i(1) by (simp add: mult_le_cancel_right)
    then have "c = ?s" using i by simp
    then show ?thesis using c(1) i(1) by (simp add: quantize_velocity_def)
  qed
  moreover have "\<forall>y \<in> set ?L. y \<noteq> 0 \<longrightarrow> ?s \<le> y"
  proof (intro ballI impI)
    fix y assume y: "y \<in> set ?L" "y \<noteq> 0"
    with velocity_ladder_cases [OF init y(1)] obtain i where
      "0 < ?s" "1 \<le> i" "y = i * ?s" by blast
    then show "?s \<le> y" using mult_right_mono [of 1 i ?s] by simp
  qed
  ultimately show ?thesis by simp
qed

text \<open>
  The theorem of C6 at velocity step 10 and velocity 3: the nearest ladder value is 0,
  and the result is 10.
\<close>

theorem quantize_velocity_floor_witness:
  "\<exists>tk. TokenizerLazy_init example_config False ''none'' 4 None = Inr tk
      \<and> (3 :: int) \<noteq> 0
      \<and> (\<forall>y \<in> set (velocity_quantizations tk). \<bar>0 - 3\<bar> \<le> \<bar>y - 3\<bar>)
      \<and> velocity_step tk = 10
      \<and> quantize_velocity tk 3 = PInt 10 \<and> quantize_velocity tk 3 \<noteq> PInt 0"
proof -
  have t: "Tokenizer_init ''none'' 4 None = Inr ()" by (simp add: Tokenizer_init_def)
  note e = example_init [OF t, of False]
  show ?thesis
    using quantize_velocity_floor [OF e, of 3] by (simp add: e example_tokenizer_def)
qed

section \<open>Properties of the pedal extension\<close>






section \<open>Properties of the pedal interval extractor\<close>

text \<open>
  The scan keeps its invariant, and closing the pedals still held appends one interval
  to each of their channels.
\<close>

lemma pedal_inv_init: "pedal_inv R msgs (\<lambda>c. [], [])"
  by (simp add: pedal_inv_def)

lemma pedal_inv_step:
  assumes R: "\<And>x y. R x y \<Longrightarrow> x \<le> y"
    and srt: "sorted_wrt (\<lambda>x y. R (pm_tick x) (pm_tick y)) (m # rest)"
    and inv: "pedal_inv R (m # rest) st"
  shows "pedal_inv R rest (pedal_step st m)"
proof -
  obtain ivs status where st: "st = (ivs, status)" by (cases st)
  let ?c = "pm_channel m" and ?t = "pm_tick m"
  from inv have all:
    "(\<forall>c. sorted_wrt (\<lambda>a b. snd a \<le> fst b) (ivs c))
   \<and> (\<forall>c. \<forall>iv \<in> set (ivs c). R (fst iv) (snd iv))
   \<and> (\<forall>c. \<forall>iv \<in> set (ivs c). \<forall>m' \<in> set (m # rest). snd iv \<le> pm_tick m')
   \<and> (\<forall>kv \<in> set status. \<forall>m' \<in> set (m # rest). R (snd kv) (pm_tick m'))
   \<and> (\<forall>kv \<in> set status. \<forall>iv \<in> set (ivs (fst kv)). snd iv \<le> snd kv)
   \<and> distinct (map fst status)"
    unfolding pedal_inv_def st fst_conv snd_conv .
  have a: "sorted_wrt (\<lambda>a b. snd a \<le> fst b) (ivs c)" for c
    using all by blast
  have b: "R (fst iv) (snd iv)" if "iv \<in> set (ivs c)" for c iv
    using all that by blast
  have c0: "snd iv \<le> ?t" if "iv \<in> set (ivs c)" for c iv
    using all that by simp
  have c: "snd iv \<le> pm_tick m'" if "iv \<in> set (ivs c)" "m' \<in> set rest" for c iv m'
    using all that by simp
  have d0: "R (snd kv) ?t" if "kv \<in> set status" for kv
    using all that by simp
  have d: "R (snd kv) (pm_tick m')" if "kv \<in> set status" "m' \<in> set rest" for kv m'
    using all that by simp
  have e: "snd iv \<le> snd kv" if "kv \<in> set status" "iv \<in> set (ivs (fst kv))" for kv iv
    using all that by blast
  have f: "distinct (map fst status)"
    using all by blast
  from srt have later: "R ?t (pm_tick m')" if "m' \<in> set rest" for m'
    using that by auto
  have keep: "pedal_inv R rest (ivs, status)"
    unfolding pedal_inv_def fst_conv snd_conv using a b c d e f by blast
  show ?thesis
  proof (cases "map_of status ?c")
    case None
    show ?thesis
    proof (cases "pm_data m = 1")
      case True
      then have step: "pedal_step st m = (ivs, status @ [(?c, ?t)])"
        using None by (simp add: pedal_step_def st Let_def)
      have fresh: "?c \<notin> fst ` set status"
        using None by (simp add: map_of_eq_None_iff)
      have d': "R (snd kv) (pm_tick m')"
        if "kv \<in> set (status @ [(?c, ?t)])" "m' \<in> set rest" for kv m'
        using that d [of kv m'] later [of m'] by auto
      have e': "snd iv \<le> snd kv"
        if "kv \<in> set (status @ [(?c, ?t)])" "iv \<in> set (ivs (fst kv))" for kv iv
        using that e [of kv iv] c0 [of iv ?c] by auto
      have f': "distinct (map fst (status @ [(?c, ?t)]))"
        using f fresh by simp
      show ?thesis
        unfolding step pedal_inv_def fst_conv snd_conv
        using a b c d' e' f' by blast
    next
      case False
      then have step: "pedal_step st m = (ivs, status)"
        using None by (simp add: pedal_step_def st Let_def)
      show ?thesis unfolding step by (rule keep)
    qed
  next
    case (Some start_tick)
    then have mem: "(?c, start_tick) \<in> set status" by (rule map_of_SomeD)
    show ?thesis
    proof (cases "pm_data m = 0")
      case True
      let ?ivs' = "ivs (?c := ivs ?c @ [(start_tick, ?t)])"
      let ?status' = "filter (\<lambda>kv. fst kv \<noteq> ?c) status"
      have step: "pedal_step st m = (?ivs', ?status')"
        using Some True by (simp add: pedal_step_def st Let_def)
      have a': "sorted_wrt (\<lambda>a b. snd a \<le> fst b) (?ivs' c')" for c'
        using a [of c'] a [of ?c] e [OF mem] by (auto simp: sorted_wrt_append)
      have b': "R (fst iv) (snd iv)" if "iv \<in> set (?ivs' c')" for c' iv
        using that b [of iv c'] b [of iv ?c] d0 [OF mem] by (auto split: if_splits)
      have c': "snd iv \<le> pm_tick m'" if "iv \<in> set (?ivs' c')" "m' \<in> set rest" for c' iv m'
        using that c [of iv c' m'] c [of iv ?c m'] R [OF later [OF that(2)]]
        by (auto split: if_splits)
      have d': "R (snd kv) (pm_tick m')" if "kv \<in> set ?status'" "m' \<in> set rest" for kv m'
        using that d [of kv m'] by auto
      have e': "snd iv \<le> snd kv" if "kv \<in> set ?status'" "iv \<in> set (?ivs' (fst kv))" for kv iv
        using that e [of kv iv] by auto
      have f': "distinct (map fst ?status')"
        using f by (simp add: distinct_map_filter)
      show ?thesis
        unfolding step pedal_inv_def fst_conv snd_conv
        using a' b' c' d' e' f' by blast
    next
      case False
      then have step: "pedal_step st m = (ivs, status)"
        using Some by (simp add: pedal_step_def st Let_def)
      show ?thesis unfolding step by (rule keep)
    qed
  qed
qed

lemma pedal_inv_foldl:
  assumes R: "\<And>x y. R x y \<Longrightarrow> x \<le> y"
    and srt: "sorted_wrt (\<lambda>x y. R (pm_tick x) (pm_tick y)) msgs"
    and inv: "pedal_inv R msgs st"
  shows "pedal_inv R [] (foldl pedal_step st msgs)"
  using srt inv
proof (induction msgs arbitrary: st)
  case Nil
  then show ?case by simp
next
  case (Cons m rest)
  have "pedal_inv R rest (pedal_step st m)"
    using R Cons.prems by (rule pedal_inv_step)
  moreover have "sorted_wrt (\<lambda>x y. R (pm_tick x) (pm_tick y)) rest"
    using Cons.prems(1) by simp
  ultimately show ?case using Cons.IH by simp
qed

lemma foldl_close_pedal:
  assumes "distinct (map fst kvs)"
  shows "foldl (close_pedal final_tick) ivs kvs c =
           (case map_of kvs c of None \<Rightarrow> ivs c | Some s \<Rightarrow> ivs c @ [(s, final_tick)])"
  using assms
proof (induction kvs arbitrary: ivs)
  case Nil
  show ?case by simp
next
  case (Cons kv kvs)
  obtain k s where kv: "kv = (k, s)" by (cases kv)
  from Cons.prems have k: "k \<notin> fst ` set kvs" and dist: "distinct (map fst kvs)"
    by (auto simp: kv)
  from k have none: "map_of kvs k = None" by (simp add: map_of_eq_None_iff)
  have cp: "close_pedal final_tick ivs (k, s) c' =
              (if c' = k then ivs k @ [(s, final_tick)] else ivs c')" for c'
    by (simp add: close_pedal_def)
  have "foldl (close_pedal final_tick) ivs (kv # kvs) c =
          foldl (close_pedal final_tick) (close_pedal final_tick ivs kv) kvs c"
    by simp
  also have "\<dots> = (case map_of kvs c of None \<Rightarrow> close_pedal final_tick ivs kv c
                       | Some s' \<Rightarrow> close_pedal final_tick ivs kv c @ [(s', final_tick)])"
    by (rule Cons.IH [OF dist])
  also have "\<dots> = (case map_of (kv # kvs) c of None \<Rightarrow> ivs c
                       | Some s' \<Rightarrow> ivs c @ [(s', final_tick)])"
    using none by (simp add: cp kv split: option.splits)
  finally show ?case .
qed

lemma build_pedal_intervals_inv:
  assumes R: "\<And>x y. R x y \<Longrightarrow> x \<le> y"
    and srt: "sorted_wrt R (map pm_tick (pedal_msgs md))"
    and nts: "note_msgs md \<noteq> []"
  shows "\<exists>ivs. build_pedal_intervals md = Inr ivs
           \<and> (\<forall>c. sorted_wrt (\<lambda>a b. snd a \<le> fst b) (ivs c))
           \<and> (\<forall>c. \<forall>iv \<in> set (ivs c). R (fst iv) (snd iv)
                  \<or> (iv = last (ivs c) \<and> snd iv = nm_end (last (note_msgs md))))"
proof -
  let ?st = "foldl pedal_step (\<lambda>c. [], []) (pedal_msgs md)"
  let ?final = "nm_end (last (note_msgs md))"
  let ?ivs = "foldl (close_pedal ?final) (fst ?st) (snd ?st)"
  have srt': "sorted_wrt (\<lambda>x y. R (pm_tick x) (pm_tick y)) (pedal_msgs md)"
    using srt by (simp add: sorted_wrt_map)
  have inv: "pedal_inv R [] ?st"
    using R srt' pedal_inv_init by (rule pedal_inv_foldl)
  then have a: "\<And>c. sorted_wrt (\<lambda>a b. snd a \<le> fst b) (fst ?st c)"
    and b: "\<And>c iv. iv \<in> set (fst ?st c) \<Longrightarrow> R (fst iv) (snd iv)"
    and e: "\<And>kv iv. kv \<in> set (snd ?st) \<Longrightarrow> iv \<in> set (fst ?st (fst kv)) \<Longrightarrow> snd iv \<le> snd kv"
    and f: "distinct (map fst (snd ?st))"
    by (auto simp: pedal_inv_def)
  have res: "?ivs c = (case map_of (snd ?st) c of None \<Rightarrow> fst ?st c
                        | Some s \<Rightarrow> fst ?st c @ [(s, ?final)])" for c
    using f by (rule foldl_close_pedal)
  have "sorted_wrt (\<lambda>a b. snd a \<le> fst b) (?ivs c)" for c
  proof (cases "map_of (snd ?st) c")
    case None
    then show ?thesis using a [of c] by (simp add: res)
  next
    case (Some s)
    then have "(c, s) \<in> set (snd ?st)" by (rule map_of_SomeD)
    then have "\<forall>iv \<in> set (fst ?st c). snd iv \<le> s" using e by fastforce
    then show ?thesis using a [of c] Some by (simp add: res sorted_wrt_append)
  qed
  moreover have "R (fst iv) (snd iv) \<or> (iv = last (?ivs c) \<and> snd iv = ?final)"
    if "iv \<in> set (?ivs c)" for c iv
    using that b [of iv c] by (auto simp: res split: option.splits)
  moreover have "build_pedal_intervals md = Inr ?ivs"
    using nts by (simp add: build_pedal_intervals_def Let_def)
  ultimately show ?thesis by blast
qed

text \<open>
  C8, as amended: for every pedal event stream in non-decreasing tick order and every
  stream with at least one note, the extractor returns intervals such that, in the list
  of every channel, each interval starts no earlier than the intervals before it end (so
  the half-open ranges of two intervals of a channel never overlap), and every interval
  closed by a release has start \<open>\<le>\<close> end, with start \<open><\<close> end when the ticks increase
  strictly. An interval left open is the last of its channel and is closed at the end
  tick of the last note; nothing orders that tick after the start.
\<close>

theorem pedal_intervals_ordered:
  assumes "sorted (map pm_tick (pedal_msgs md))" and "note_msgs md \<noteq> []"
  shows "\<exists>ivs. build_pedal_intervals md = Inr ivs
           \<and> (\<forall>c. sorted_wrt (\<lambda>a b. snd a \<le> fst b) (ivs c))
           \<and> (\<forall>c. \<forall>iv \<in> set (ivs c). fst iv \<le> snd iv
                  \<or> (iv = last (ivs c) \<and> snd iv = nm_end (last (note_msgs md))))
           \<and> (sorted_wrt (<) (map pm_tick (pedal_msgs md)) \<longrightarrow>
                (\<forall>c. \<forall>iv \<in> set (ivs c). fst iv < snd iv
                  \<or> (iv = last (ivs c) \<and> snd iv = nm_end (last (note_msgs md)))))"
proof -
  obtain ivs where ivs: "build_pedal_intervals md = Inr ivs"
    and 1: "\<forall>c. sorted_wrt (\<lambda>a b. snd a \<le> fst b) (ivs c)"
    and 2: "\<forall>c. \<forall>iv \<in> set (ivs c). fst iv \<le> snd iv
              \<or> (iv = last (ivs c) \<and> snd iv = nm_end (last (note_msgs md)))"
    using build_pedal_intervals_inv [of "(\<le>)" md] assms by auto
  have "\<forall>c. \<forall>iv \<in> set (ivs c). fst iv < snd iv
              \<or> (iv = last (ivs c) \<and> snd iv = nm_end (last (note_msgs md)))"
    if "sorted_wrt (<) (map pm_tick (pedal_msgs md))"
    using build_pedal_intervals_inv [of "(<)" md] that assms(2) ivs by auto
  with ivs 1 2 show ?thesis by blast
qed

text \<open>The intervals of channel 0 in the stream \<open>held_pedal\<close>.\<close>

lemma held_pedal_intervals:
  "build_pedal_intervals held_pedal = Inr ivs \<Longrightarrow> ivs 0 = [(10, 20), (30, 100)]"
  by (auto simp: build_pedal_intervals_def held_pedal_def pedal_step_def close_pedal_def Let_def)

text \<open>
  The theorem of C8 at the stream \<open>held_pedal\<close>: channel 0 gets the interval closed by
  the release and the interval closed at the final tick.
\<close>

theorem pedal_intervals_ordered_witness:
  "sorted (map pm_tick (pedal_msgs held_pedal)) \<and> note_msgs held_pedal \<noteq> []
   \<and> (\<exists>ivs. build_pedal_intervals held_pedal = Inr ivs
          \<and> ivs 0 = [(10, 20), (30, 100)]
          \<and> sorted_wrt (\<lambda>a b. snd a \<le> fst b) (ivs 0))"
proof -
  have h: "sorted (map pm_tick (pedal_msgs held_pedal))" "note_msgs held_pedal \<noteq> []"
    by (simp_all add: held_pedal_def)
  from pedal_intervals_ordered [OF h] obtain ivs where
    "build_pedal_intervals held_pedal = Inr ivs"
    "\<forall>c. sorted_wrt (\<lambda>a b. snd a \<le> fst b) (ivs c)"
    by blast
  then show ?thesis using h held_pedal_intervals by blast
qed

text \<open>
  C8, as stated, fails for an interval left open: in the stream \<open>trailing_pedal\<close>, whose
  single pedal event is in strict tick order, the pedal is pressed at tick 150 and the
  last note ends at tick 100, so channel 0 gets the interval with start 150 and end 100.
\<close>

theorem pedal_intervals_start_after_end_counterexample:
  "sorted_wrt (<) (map pm_tick (pedal_msgs trailing_pedal))
   \<and> map_sum id (\<lambda>ivs. ivs 0) (build_pedal_intervals trailing_pedal) = Inr [(150, 100)]
   \<and> \<not> (150 :: int) < 100"
  by (simp add: build_pedal_intervals_def trailing_pedal_def pedal_step_def close_pedal_def Let_def)

section \<open>Properties of the windower\<close>

text \<open>
  A slice whose bounds lie inside the list, and the closed form of the strided loop: it
  ends, after \<open>K\<close> windows, at the first offset whose window reaches the end of the body.
\<close>

lemma py_slice_inside:
  assumes "0 \<le> a" "a \<le> b" "b \<le> int (length xs)"
  shows "py_slice xs a b = take (nat (b - a)) (drop (nat a) xs)"
    and "length (py_slice xs a b) = nat (b - a)"
proof -
  have lo: "slice_bound (length xs) a = nat a" using assms by (auto simp: slice_bound_def)
  have hi: "slice_bound (length xs) b = nat b" using assms by (auto simp: slice_bound_def)
  have d: "nat b - nat a = nat (b - a)" using assms by auto
  show "py_slice xs a b = take (nat (b - a)) (drop (nat a) xs)"
    by (simp add: py_slice_def lo hi d Let_def)
  then show "length (py_slice xs a b) = nat (b - a)" using assms by auto
qed

lemma strided_loop_closed:
  assumes s: "0 < s"
  shows "\<exists>K. strided_loop prefix body msl (Some s) idx res =
               Some (Inr (res @ map (\<lambda>k. prefix @ py_slice body (idx + int k * s)
                                            (idx + int k * s + msl - int (length prefix)))
                                    [0..<K],
                          idx + int K * s))
           \<and> (\<forall>k<K. idx + int k * s + msl - int (length prefix) < int (length body))
           \<and> \<not> (idx + int K * s + msl - int (length prefix) < int (length body))"
proof (induction "nat (int (length body) - (idx + msl - int (length prefix)))"
       arbitrary: idx res rule: less_induct)
  case less
  let ?p = "int (length prefix)" and ?L = "int (length body)"
  let ?w = "\<lambda>i k. prefix @ py_slice body (i + int k * s) (i + int k * s + msl - ?p)"
  show ?case
  proof (cases "idx + msl - ?p < ?L")
    case False
    then have "strided_loop prefix body msl (Some s) idx res = Some (Inr (res, idx))"
      by (subst strided_loop.simps) simp
    then show ?thesis using False by (intro exI [of _ 0]) simp
  next
    case True
    have step: "strided_loop prefix body msl (Some s) idx res =
                strided_loop prefix body msl (Some s) (idx + s) (res @ [?w idx 0])"
      using True by (subst strided_loop.simps) simp
    have "nat (?L - (idx + s + msl - ?p)) < nat (?L - (idx + msl - ?p))"
      using True s by simp
    from less [OF this, of "res @ [?w idx 0]"] obtain K where
      K: "strided_loop prefix body msl (Some s) (idx + s) (res @ [?w idx 0]) =
            Some (Inr ((res @ [?w idx 0]) @ map (?w (idx + s)) [0..<K], idx + s + int K * s))"
        "\<forall>k<K. idx + s + int k * s + msl - ?p < ?L"
        "\<not> (idx + s + int K * s + msl - ?p < ?L)"
      by blast
    have shift: "?w (idx + s) k = ?w idx (Suc k)" for k
      by (simp add: algebra_simps)
    have "(res @ [?w idx 0]) @ map (?w (idx + s)) [0..<K] = res @ map (?w idx) [0..<Suc K]"
      unfolding map_upt_Suc shift by simp
    moreover have "idx + s + int K * s = idx + int (Suc K) * s"
      by (simp add: algebra_simps)
    moreover have "\<forall>k<Suc K. idx + int k * s + msl - ?p < ?L"
    proof (intro allI impI)
      fix k assume "k < Suc K"
      show "idx + int k * s + msl - ?p < ?L"
      proof (cases k)
        case 0
        then show ?thesis using True by simp
      next
        case (Suc j)
        then have "j < K" using \<open>k < Suc K\<close> by simp
        with K(2) have "idx + s + int j * s + msl - ?p < ?L" by blast
        then show ?thesis by (simp add: Suc algebra_simps)
      qed
    qed
    moreover have "\<not> (idx + int (Suc K) * s + msl - ?p < ?L)"
      using K(3) by (simp add: algebra_simps)
    ultimately show ?thesis
      unfolding step K(1) by (intro exI [of _ "Suc K"]) (simp only: simp_thms)
  qed
qed

text \<open>
  C3, as amended: under the strided policy with a stride \<open>s > 0\<close> and a prefix no longer
  than \<^verbatim>\<open>max_seq_len\<close>, the windower returns, for the body \<open>[bos] + tokenized + [eos]\<close>,
  the windows \<open>prefix + body[k*s : k*s + (max_seq_len - p)]\<close> at the offsets \<open>k*s\<close>,
  \<open>k < K\<close>, for which \<open>k*s + (max_seq_len - p) < len(body)\<close>, followed by one final
  window at the next offset \<open>K*s\<close>, padded to \<^verbatim>\<open>max_seq_len\<close> if and only if padding is
  enabled; every window before the final one has exactly \<^verbatim>\<open>max_seq_len\<close> tokens.
\<close>

theorem strided_windows:
  assumes sl: "stride_len self = Some s" and s: "0 < s"
    and p: "int (length prefix) \<le> max_seq_len self"
  shows "\<exists>K. truncate_strided self prefix tokenized_seq =
               Some (Inr (map (\<lambda>k. prefix @ py_slice ([bos_tok] @ tokenized_seq @ [eos_tok])
                                       (int k * s)
                                       (int k * s + (max_seq_len self - int (length prefix))))
                              [0..<K]
                          @ [(if padding self then pad_to (max_seq_len self) else id)
                               (prefix @ py_slice ([bos_tok] @ tokenized_seq @ [eos_tok])
                                  (int K * s)
                                  (int K * s + (max_seq_len self - int (length prefix))))]))
           \<and> (\<forall>k<K. int k * s + (max_seq_len self - int (length prefix))
                        < int (length ([bos_tok] @ tokenized_seq @ [eos_tok])))
           \<and> \<not> (int K * s + (max_seq_len self - int (length prefix))
                        < int (length ([bos_tok] @ tokenized_seq @ [eos_tok])))
           \<and> (\<forall>k<K. int (length (prefix @ py_slice ([bos_tok] @ tokenized_seq @ [eos_tok])
                                       (int k * s)
                                       (int k * s + (max_seq_len self - int (length prefix)))))
                        = max_seq_len self)"
proof -
  let ?body = "[bos_tok] @ tokenized_seq @ [eos_tok]"
  let ?m = "max_seq_len self" and ?p = "int (length prefix)"
  let ?w = "\<lambda>k. prefix @ py_slice ?body (int k * s) (int k * s + (?m - ?p))"
  from strided_loop_closed [OF s, of prefix ?body ?m 0 "[]"] obtain K where
    K: "strided_loop prefix ?body ?m (Some s) 0 [] =
          Some (Inr (map (\<lambda>k. prefix @ py_slice ?body (0 + int k * s) (0 + int k * s + ?m - ?p))
                       [0..<K], 0 + int K * s))"
      "\<forall>k<K. 0 + int k * s + ?m - ?p < int (length ?body)"
      "\<not> (0 + int K * s + ?m - ?p < int (length ?body))"
    by auto
  have eq: "0 + int k * s + ?m - ?p = int k * s + (?m - ?p)" for k by simp
  have K1: "strided_loop prefix ?body ?m (Some s) 0 [] = Some (Inr (map ?w [0..<K], int K * s))"
    using K(1) unfolding eq by simp
  have K2: "\<forall>k<K. int k * s + (?m - ?p) < int (length ?body)"
    using K(2) unfolding eq by simp
  have K3: "\<not> (int K * s + (?m - ?p) < int (length ?body))"
    using K(3) unfolding eq by simp
  have res: "truncate_strided self prefix tokenized_seq =
          Some (Inr (map ?w [0..<K]
                     @ [(if padding self then pad_to ?m else id) (?w K)]))"
    unfolding truncate_strided_def Let_def sl K1 by (simp add: algebra_simps)
  have len: "int (length (?w k)) = ?m" if "k < K" for k
  proof -
    have "0 \<le> int k * s" using s by simp
    moreover have "int k * s \<le> int k * s + (?m - ?p)" using p by simp
    moreover have "int k * s + (?m - ?p) \<le> int (length ?body)"
      using K2 that by (simp add: less_imp_le)
    ultimately have "length (py_slice ?body (int k * s) (int k * s + (?m - ?p))) = nat (?m - ?p)"
      using py_slice_inside(2) [of "int k * s" "int k * s + (?m - ?p)" ?body] by simp
    then show ?thesis using p by simp
  qed
  show ?thesis
    using res K2 K3 len by (intro exI [of _ K]) blast
qed

text \<open>The windows for a prefix of 2 tokens, a body of 10 tokens, length 6 and stride 2.\<close>

lemma eight_tokens_windows:
  "truncate_strided (example_tokenizer False ''strided'' 6 (Some 2))
     [Str ''piano'', Str ''drums''] eight_tokens =
   Some (Inr [[Str ''piano'', Str ''drums''] @ take 4 (drop 0 ([bos_tok] @ eight_tokens @ [eos_tok])),
              [Str ''piano'', Str ''drums''] @ take 4 (drop 2 ([bos_tok] @ eight_tokens @ [eos_tok])),
              [Str ''piano'', Str ''drums''] @ take 4 (drop 4 ([bos_tok] @ eight_tokens @ [eos_tok])),
              [Str ''piano'', Str ''drums''] @ take 4 (drop 6 ([bos_tok] @ eight_tokens @ [eos_tok]))])"
  by (simp add: truncate_strided_def example_tokenizer_def eight_tokens_def strided_loop.simps
        py_slice_def slice_bound_def Let_def)

text \<open>
  The theorem of C3 at \<open>p = 2\<close>, \<open>L = 10\<close>, \<^verbatim>\<open>max_seq_len = 6\<close>, \<^verbatim>\<open>stride_len = 2\<close>: exactly
  four windows, at the body offsets 0, 2, 4 and 6, each of length 6.
\<close>

theorem strided_windows_witness:
  "stride_len (example_tokenizer False ''strided'' 6 (Some 2)) = Some 2 \<and> (0 :: int) < 2
   \<and> int (length [Str ''piano'', Str ''drums'']) \<le> max_seq_len (example_tokenizer False ''strided'' 6 (Some 2))
   \<and> length ([bos_tok] @ eight_tokens @ [eos_tok]) = 10
   \<and> (\<exists>K. (\<forall>k<K. int k * 2 + (6 - 2) < (10 :: int)) \<and> \<not> (int K * 2 + (6 - 2) < (10 :: int)))
   \<and> truncate_strided (example_tokenizer False ''strided'' 6 (Some 2))
           [Str ''piano'', Str ''drums''] eight_tokens =
        Some (Inr [[Str ''piano'', Str ''drums''] @ take 4 (drop 0 ([bos_tok] @ eight_tokens @ [eos_tok])),
                   [Str ''piano'', Str ''drums''] @ take 4 (drop 2 ([bos_tok] @ eight_tokens @ [eos_tok])),
                   [Str ''piano'', Str ''drums''] @ take 4 (drop 4 ([bos_tok] @ eight_tokens @ [eos_tok])),
                   [Str ''piano'', Str ''drums''] @ take 4 (drop 6 ([bos_tok] @ eight_tokens @ [eos_tok]))])
   \<and> map length
        [[Str ''piano'', Str ''drums''] @ take 4 (drop 0 ([bos_tok] @ eight_tokens @ [eos_tok])),
         [Str ''piano'', Str ''drums''] @ take 4 (drop 2 ([bos_tok] @ eight_tokens @ [eos_tok])),
         [Str ''piano'', Str ''drums''] @ take 4 (drop 4 ([bos_tok] @ eight_tokens @ [eos_tok])),
         [Str ''piano'', Str ''drums''] @ take 4 (drop 6 ([bos_tok] @ eight_tokens @ [eos_tok]))]
       = [6, 6, 6, 6]"
proof -
  let ?T = "example_tokenizer False ''strided'' 6 (Some 2)"
  let ?P = "[Str ''piano'', Str ''drums'']"
  have h1: "stride_len ?T = Some 2" by (simp add: example_tokenizer_def)
  have h2: "(0 :: int) < 2" by simp
  have h3: "int (length ?P) \<le> max_seq_len ?T" by (simp add: example_tokenizer_def)
  have m: "max_seq_len ?T = 6" by (simp add: example_tokenizer_def)
  have l: "length ([bos_tok] @ eight_tokens @ [eos_tok]) = 10" by (simp add: eight_tokens_def)
  from strided_windows [OF h1 h2 h3, of eight_tokens] obtain K where
    "\<forall>k<K. int k * 2 + (max_seq_len ?T - int (length ?P))
              < int (length ([bos_tok] @ eight_tokens @ [eos_tok]))"
    "\<not> (int K * 2 + (max_seq_len ?T - int (length ?P))
              < int (length ([bos_tok] @ eight_tokens @ [eos_tok])))"
    by blast
  then have k: "\<exists>K. (\<forall>k<K. int k * 2 + (6 - 2) < (10 :: int)) \<and> \<not> (int K * 2 + (6 - 2) < (10 :: int))"
    unfolding m l by auto
  have ls: "map length
     [?P @ take 4 (drop 0 ([bos_tok] @ eight_tokens @ [eos_tok])),
      ?P @ take 4 (drop 2 ([bos_tok] @ eight_tokens @ [eos_tok])),
      ?P @ take 4 (drop 4 ([bos_tok] @ eight_tokens @ [eos_tok])),
      ?P @ take 4 (drop 6 ([bos_tok] @ eight_tokens @ [eos_tok]))] = [6, 6, 6, 6]"
    by (simp add: eight_tokens_def)
  show ?thesis
    by (intro conjI h1 h2 h3 l k ls eight_tokens_windows)
qed

text \<open>
  C3, as stated for every prefix, fails when the prefix is longer than \<^verbatim>\<open>max_seq_len\<close>:
  with \<^verbatim>\<open>max_seq_len = 2\<close>, \<^verbatim>\<open>stride_len = 1\<close>, which the constructor accepts, and a prefix
  of three instrument names, the end of the first slice is the negative index \<open>-1\<close>, and
  the first of the five windows has 5 tokens.
\<close>

theorem strided_window_longer_counterexample:
  "Tokenizer_init ''strided'' 2 (Some 1) = Inr ()
   \<and> max_seq_len (example_tokenizer False ''strided'' 2 (Some 1)) = 2
   \<and> truncate_strided (example_tokenizer False ''strided'' 2 (Some 1))
        [Str ''piano'', Str ''guitar'', Str ''bass''] [Tup2 ''drum'' (PInt 40)] =
      Some (Inr [[Str ''piano'', Str ''guitar'', Str ''bass'', bos_tok, Tup2 ''drum'' (PInt 40)],
                 [Str ''piano'', Str ''guitar'', Str ''bass''],
                 [Str ''piano'', Str ''guitar'', Str ''bass''],
                 [Str ''piano'', Str ''guitar'', Str ''bass''],
                 [Str ''piano'', Str ''guitar'', Str ''bass'']])
   \<and> length [Str ''piano'', Str ''guitar'', Str ''bass'', bos_tok, Tup2 ''drum'' (PInt 40)] = 5"
  by (simp add: Tokenizer_init_def truncate_strided_def example_tokenizer_def strided_loop.simps
        py_slice_def slice_bound_def Let_def)

section \<open>Properties of the augmentation exporters\<close>










section \<open>Properties of the instrument prefix\<close>

text \<open>The names collected from the declarations that are not on a drum channel.\<close>

lemma non_drum_names_set:
  "non_drum_names imsgs = Inr names \<Longrightarrow>
     set names = {n. \<exists>msg \<in> set imsgs. \<not> is_drum_channel (im_channel msg)
                       \<and> program_to_instrument (im_data msg) = Some n}"
proof (induction imsgs arbitrary: names)
  case Nil
  then show ?case by simp
next
  case (Cons msg rest)
  show ?case
  proof (cases "is_drum_channel (im_channel msg)")
    case True
    with Cons.prems have "non_drum_names rest = Inr names" by simp
    from Cons.IH [OF this] True show ?thesis by auto
  next
    case False
    with Cons.prems obtain name names' where
      n: "program_to_instrument (im_data msg) = Some name" "non_drum_names rest = Inr names'"
         "names = name # names'"
      by (auto split: option.splits sum.splits)
    from Cons.IH [OF n(2)] False n(1,3) show ?thesis by auto
  qed
qed

lemma non_drum_names_total:
  "(\<forall>msg \<in> set imsgs. \<not> is_drum_channel (im_channel msg) \<longrightarrow> 0 \<le> im_data msg \<and> im_data msg \<le> 127)
   \<Longrightarrow> \<exists>names. non_drum_names imsgs = Inr names"
proof (induction imsgs)
  case Nil
  show ?case by simp
next
  case (Cons msg rest)
  then obtain names where "non_drum_names rest = Inr names" by auto
  moreover have "\<not> is_drum_channel (im_channel msg) \<Longrightarrow>
      \<exists>name. program_to_instrument (im_data msg) = Some name"
    using Cons.prems by (simp add: program_to_instrument_def)
  ultimately show ?case by auto
qed

text \<open>
  C9, as amended: whatever order \<^verbatim>\<open>list(set(...))\<close> enumerates a set in, the
  present-instruments prefix has no duplicates and holds exactly the instrument names of
  the declarations that are not on a drum channel, and the literal \<open>drums\<close> when some
  declaration is on channel 9 or 16. The prefix is returned when every such program
  number lies in the table. Its order is the one of the set, not the order of first
  occurrence, and \<open>drums\<close> need not come last.
\<close>

theorem present_instruments_set:
  assumes "\<forall>xs. set (list_of_set xs) = set xs \<and> distinct (list_of_set xs)"
  shows "(\<forall>names. present_instruments list_of_set imsgs = Inr names \<longrightarrow>
            distinct names
          \<and> set names =
              {n. \<exists>msg \<in> set imsgs. \<not> is_drum_channel (im_channel msg)
                     \<and> program_to_instrument (im_data msg) = Some n}
              \<union> (if \<exists>msg \<in> set imsgs. is_drum_channel (im_channel msg) then {''drums''} else {}))
       \<and> ((\<forall>msg \<in> set imsgs. \<not> is_drum_channel (im_channel msg)
               \<longrightarrow> 0 \<le> im_data msg \<and> im_data msg \<le> 127)
            \<longrightarrow> (\<exists>names. present_instruments list_of_set imsgs = Inr names))"
proof -
  have used: "(9 \<in> set (map im_channel imsgs) \<or> 16 \<in> set (map im_channel imsgs))
                \<longleftrightarrow> (\<exists>msg \<in> set imsgs. is_drum_channel (im_channel msg))"
    by (auto simp: is_drum_channel_def)
  have A: "distinct names
          \<and> set names =
              {n. \<exists>msg \<in> set imsgs. \<not> is_drum_channel (im_channel msg)
                     \<and> program_to_instrument (im_data msg) = Some n}
              \<union> (if \<exists>msg \<in> set imsgs. is_drum_channel (im_channel msg) then {''drums''} else {})"
    if "present_instruments list_of_set imsgs = Inr names" for names
  proof -
    from that obtain ns where ns: "non_drum_names imsgs = Inr ns"
      and names: "names = list_of_set (if \<exists>msg \<in> set imsgs. is_drum_channel (im_channel msg)
                                       then ns @ [''drums''] else ns)"
      unfolding present_instruments_def Let_def used by (auto split: sum.splits)
    show ?thesis
      using assms non_drum_names_set [OF ns] unfolding names by auto
  qed
  have B: "\<exists>names. present_instruments list_of_set imsgs = Inr names"
    if "\<forall>msg \<in> set imsgs. \<not> is_drum_channel (im_channel msg)
               \<longrightarrow> 0 \<le> im_data msg \<and> im_data msg \<le> 127"
    using non_drum_names_total [OF that] by (auto simp: present_instruments_def Let_def)
  show ?thesis using A B by blast
qed

text \<open>The prefix of \<open>four_declarations\<close> when the set is enumerated in reversed order.\<close>

lemma four_declarations_prefix:
  "present_instruments reversed_set_order four_declarations = Inr [''drums'', ''piano'', ''guitar'']"
  by (simp add: present_instruments_def four_declarations_def reversed_set_order_def
        is_drum_channel_def program_to_instrument_def instrument_classes_def Let_def)

text \<open>
  The theorem of C9 at \<open>four_declarations\<close> and the order \<open>reversed_set_order\<close>.
\<close>

theorem present_instruments_set_witness:
  "(\<forall>xs. set (reversed_set_order xs) = set xs \<and> distinct (reversed_set_order xs))
   \<and> present_instruments reversed_set_order four_declarations = Inr [''drums'', ''piano'', ''guitar'']
   \<and> distinct [''drums'', ''piano'', ''guitar'']
   \<and> set [''drums'', ''piano'', ''guitar''] =
       {n. \<exists>msg \<in> set four_declarations. \<not> is_drum_channel (im_channel msg)
              \<and> program_to_instrument (im_data msg) = Some n}
       \<union> (if \<exists>msg \<in> set four_declarations. is_drum_channel (im_channel msg)
          then {''drums''} else {})"
proof -
  have h: "\<forall>xs. set (reversed_set_order xs) = set xs \<and> distinct (reversed_set_order xs)"
    by (simp add: reversed_set_order_def)
  from present_instruments_set [OF h, of four_declarations] four_declarations_prefix
  have "distinct [''drums'', ''piano'', ''guitar'']
   \<and> set [''drums'', ''piano'', ''guitar''] =
       {n. \<exists>msg \<in> set four_declarations. \<not> is_drum_channel (im_channel msg)
              \<and> program_to_instrument (im_data msg) = Some n}
       \<union> (if \<exists>msg \<in> set four_declarations. is_drum_channel (im_channel msg)
          then {''drums''} else {})"
    by blast
  with h four_declarations_prefix show ?thesis by blast
qed

text \<open>
  C9, as stated, fails: the declarations name the piano and then the guitar, and with a
  set that enumerates the guitar first the prefix is guitar, piano, which is not the
  order of first occurrence.
\<close>

theorem present_instruments_order_counterexample:
  "present_instruments reversed_set_order
     [\<lparr> im_channel = 0, im_data = 0 \<rparr>, \<lparr> im_channel = 1, im_data = 24 \<rparr>]
     = Inr [''guitar'', ''piano'']
   \<and> non_drum_names [\<lparr> im_channel = 0, im_data = 0 \<rparr>, \<lparr> im_channel = 1, im_data = 24 \<rparr>]
     = Inr [''piano'', ''guitar'']
   \<and> [''guitar'', ''piano''] \<noteq> [''piano'', ''guitar'']"
  by (simp add: present_instruments_def reversed_set_order_def
        is_drum_channel_def program_to_instrument_def instrument_classes_def Let_def)

section \<open>Encoding a stream without notes\<close>

text \<open>
  Channel filtering raises only for a class name that the configuration lacks and keeps
  an empty note list empty; the pedal interval extractor raises on an empty note list.
\<close>

lemma program_class:
  assumes "i \<in> set [1 .. 127]"
  shows "\<exists>name \<in> set instrument_classes. program_to_instrument i = Some name"
proof -
  from assms have i: "1 \<le> i" "i \<le> 127" by auto
  then have "0 \<le> i div 8" "i div 8 < 16" by auto
  then have "nat (i div 8) < length instrument_classes"
    by (simp add: instrument_classes_def)
  then have "instrument_classes ! nat (i div 8) \<in> set instrument_classes"
    by (rule nth_mem)
  then show ?thesis using i by (simp add: program_to_instrument_def)
qed

lemma programs_to_remove_cases:
  "programs_to_remove self = Inl KeyError \<or> (\<exists>progs. programs_to_remove self = Inr progs)"
  by (simp add: programs_to_remove_def)

lemma programs_to_remove_complete:
  assumes "\<forall>name \<in> set instrument_classes. ignore_instruments self name \<noteq> None"
  shows "\<exists>progs. programs_to_remove self = Inr progs"
proof -
  have "\<not> (\<exists>i \<in> set [1 .. 127].
           (case program_to_instrument i of
              None \<Rightarrow> True
            | Some name \<Rightarrow> ignore_instruments self name = None))"
  proof
    assume "\<exists>i \<in> set [1 .. 127].
           (case program_to_instrument i of
              None \<Rightarrow> True
            | Some name \<Rightarrow> ignore_instruments self name = None)"
    then obtain i where i: "i \<in> set [1 .. 127]"
      "case program_to_instrument i of None \<Rightarrow> True
       | Some name \<Rightarrow> ignore_instruments self name = None"
      by blast
    from program_class [OF i(1)] obtain name where
      "name \<in> set instrument_classes" "program_to_instrument i = Some name" by blast
    with i(2) assms show False by simp
  qed
  then show ?thesis unfolding programs_to_remove_def by (simp only: if_False) blast
qed

lemma remove_instruments_notes:
  "remove_instruments self md = Inr md' \<Longrightarrow> note_msgs md = [] \<Longrightarrow> note_msgs md' = []"
  by (auto simp: remove_instruments_def Let_def split: sum.splits)

lemma remove_instruments_cases:
  "remove_instruments self md = Inl KeyError \<or> (\<exists>md'. remove_instruments self md = Inr md')"
  using programs_to_remove_cases [of self]
  by (auto simp: remove_instruments_def Let_def)

lemma remove_instruments_complete:
  assumes "\<forall>name \<in> set instrument_classes. ignore_instruments self name \<noteq> None"
  shows "\<exists>md'. remove_instruments self md = Inr md'"
  using programs_to_remove_complete [OF assms]
  by (auto simp: remove_instruments_def Let_def)

lemma build_pedal_intervals_no_notes:
  "note_msgs md = [] \<Longrightarrow> build_pedal_intervals md = Inl IndexError"
  by (simp add: build_pedal_intervals_def Let_def)

lemma tokenize_no_notes:
  assumes "note_msgs md = []"
  shows "tokenize_midi_dict list_of_set self md = Some (Inl KeyError)
         \<or> tokenize_midi_dict list_of_set self md = Some (Inl IndexError)"
    and "(\<forall>name \<in> set instrument_classes. ignore_instruments self name \<noteq> None)
           \<Longrightarrow> tokenize_midi_dict list_of_set self md = Some (Inl IndexError)"
proof -
  have r: "tokenize_midi_dict list_of_set self md = Some (Inl IndexError)"
    if "remove_instruments self md = Inr md'" for md'
  proof -
    have "build_pedal_intervals md' = Inl IndexError"
      using remove_instruments_notes [OF that assms] by (rule build_pedal_intervals_no_notes)
    then show ?thesis by (simp add: tokenize_midi_dict_def Let_def that)
  qed
  have k: "tokenize_midi_dict list_of_set self md = Some (Inl KeyError)"
    if "remove_instruments self md = Inl KeyError"
    by (simp add: tokenize_midi_dict_def Let_def that)
  show "tokenize_midi_dict list_of_set self md = Some (Inl KeyError)
         \<or> tokenize_midi_dict list_of_set self md = Some (Inl IndexError)"
    using remove_instruments_cases [of self md] r k by blast
  show "tokenize_midi_dict list_of_set self md = Some (Inl IndexError)"
    if "\<forall>name \<in> set instrument_classes. ignore_instruments self name \<noteq> None"
    using remove_instruments_complete [OF that, of md] r by blast
qed

lemma example_tokenizer_complete:
  "\<forall>name \<in> set instrument_classes. ignore_instruments (example_tokenizer pad tt msl sl) name \<noteq> None"
proof
  fix name assume "name \<in> set instrument_classes"
  then have "name \<in> fst ` set (map (\<lambda>name. (name, False)) instrument_classes)"
    by (simp add: image_iff)
  then have "map_of (map (\<lambda>name. (name, False)) instrument_classes) name \<noteq> None"
    by (simp only: map_of_eq_None_iff not_not)
  then show "ignore_instruments (example_tokenizer pad tt msl sl) name \<noteq> None"
    by (simp add: example_tokenizer_def example_config_def)
qed

text \<open>
  C7, as amended: for every event stream without note events, encoding fails, and never
  with an \<open>EmptySequenceError\<close>. The error is the \<open>IndexError\<close> that the pedal interval
  extractor raises when it reads the end tick of the last note, after channel filtering
  and the scan of the pedal events, whenever the configuration names every instrument
  class; otherwise it is the \<open>KeyError\<close> of channel filtering. No check of the note list
  precedes that work.
\<close>

theorem no_notes_index_error:
  assumes "note_msgs md = []"
  shows "(tokenize_midi_dict list_of_set self md = Some (Inl KeyError)
          \<or> tokenize_midi_dict list_of_set self md = Some (Inl IndexError))
       \<and> tokenize_midi_dict list_of_set self md \<noteq> Some (Inl EmptySequenceError)
       \<and> ((\<forall>name \<in> set instrument_classes. ignore_instruments self name \<noteq> None)
            \<longrightarrow> tokenize_midi_dict list_of_set self md = Some (Inl IndexError))
       \<and> (\<forall>md'. remove_instruments self md = Inr md'
            \<longrightarrow> build_pedal_intervals md' = Inl IndexError)"
proof -
  note t = tokenize_no_notes [OF assms, where list_of_set = list_of_set and self = self]
  have "tokenize_midi_dict list_of_set self md \<noteq> Some (Inl EmptySequenceError)"
    using t(1) by auto
  moreover have "build_pedal_intervals md' = Inl IndexError"
    if "remove_instruments self md = Inr md'" for md'
    using remove_instruments_notes [OF that assms] by (rule build_pedal_intervals_no_notes)
  ultimately show ?thesis using t by blast
qed

text \<open>The theorem of C7 at the stream \<open>no_notes\<close> and a tokenizer of the example configuration.\<close>

theorem no_notes_index_error_witness:
  "note_msgs no_notes = []
   \<and> \<not> (\<exists>name \<in> set instrument_classes.
           ignore_instruments (example_tokenizer False ''none'' 4 None) name = None)
   \<and> tokenize_midi_dict reversed_set_order (example_tokenizer False ''none'' 4 None) no_notes
       = Some (Inl IndexError)"
proof -
  have h: "note_msgs no_notes = []" by (simp add: no_notes_def)
  show ?thesis
    using no_notes_index_error [OF h, where list_of_set = reversed_set_order
            and self = "example_tokenizer False ''none'' 4 None"]
      example_tokenizer_complete [of False "''none''" 4 None] h
    by blast
qed

text \<open>
  C7, as stated, fails: encoding the empty stream ends with an \<open>IndexError\<close>, not with an
  \<open>EmptySequenceError\<close>.
\<close>

theorem empty_stream_error_counterexample:
  "note_msgs empty_stream = []
   \<and> tokenize_midi_dict reversed_set_order (example_tokenizer False ''none'' 4 None) empty_stream
       = Some (Inl IndexError)
   \<and> tokenize_midi_dict reversed_set_order (example_tokenizer False ''none'' 4 None) empty_stream
       \<noteq> Some (Inl EmptySequenceError)"
proof -
  have h: "note_msgs empty_stream = []" by (simp add: empty_stream_def)
  show ?thesis
    using tokenize_no_notes(2) [OF h example_tokenizer_complete, where list_of_set = reversed_set_order] h
    by simp
qed

section \<open>Properties of the wait tokens\<close>

text \<open>
  What the wait loop returns when it returns, and that it returns for a positive
  maximum; the time ladder of a constructed tokenizer; the tokens that the note loop and
  the three truncation policies produce.
\<close>

lemma wait_loop_result:
  assumes "wait_loop mts w seq = Some r"
  shows "\<exists>k. r = (seq @ replicate k (Tup2 ''wait'' (PInt mts)), w - int k * mts)
           \<and> w - int k * mts \<le> mts \<and> (k = 0 \<longleftrightarrow> w \<le> mts)
           \<and> (\<forall>j<k. mts < w - int j * mts)"
proof (rule wait_loop.raw_induct
    [where P = "\<lambda>mts w seq r. \<exists>k. r = (seq @ replicate k (Tup2 ''wait'' (PInt mts)), w - int k * mts)
           \<and> w - int k * mts \<le> mts \<and> (k = 0 \<longleftrightarrow> w \<le> mts)
           \<and> (\<forall>j<k. mts < w - int j * mts)", OF _ assms])
  fix wait_loop' :: "int \<Rightarrow> int \<Rightarrow> token list \<Rightarrow> (token list \<times> int) option"
  fix mts w seq r
  assume IH: "\<And>mts w seq r. wait_loop' mts w seq = Some r \<Longrightarrow>
             \<exists>k. r = (seq @ replicate k (Tup2 ''wait'' (PInt mts)), w - int k * mts)
           \<and> w - int k * mts \<le> mts \<and> (k = 0 \<longleftrightarrow> w \<le> mts)
           \<and> (\<forall>j<k. mts < w - int j * mts)"
    and body: "(if mts < w then wait_loop' mts (w - mts) (seq @ [Tup2 ''wait'' (PInt mts)])
                else Some (seq, w)) = Some r"
  show "\<exists>k. r = (seq @ replicate k (Tup2 ''wait'' (PInt mts)), w - int k * mts)
           \<and> w - int k * mts \<le> mts \<and> (k = 0 \<longleftrightarrow> w \<le> mts)
           \<and> (\<forall>j<k. mts < w - int j * mts)"
  proof (cases "mts < w")
    case False
    with body have "r = (seq, w)" by simp
    then show ?thesis using False by (intro exI [of _ 0]) simp
  next
    case True
    with body have "wait_loop' mts (w - mts) (seq @ [Tup2 ''wait'' (PInt mts)]) = Some r" by simp
    from IH [OF this] obtain k where
      k: "r = ((seq @ [Tup2 ''wait'' (PInt mts)]) @ replicate k (Tup2 ''wait'' (PInt mts)),
               w - mts - int k * mts)"
         "w - mts - int k * mts \<le> mts" "\<forall>j<k. mts < w - mts - int j * mts"
      by blast
    have "r = (seq @ replicate (Suc k) (Tup2 ''wait'' (PInt mts)), w - int (Suc k) * mts)"
      using k(1) by (simp add: algebra_simps replicate_append_same)
    moreover have "w - int (Suc k) * mts \<le> mts" using k(2) by (simp add: algebra_simps)
    moreover have "\<forall>j<Suc k. mts < w - int j * mts"
    proof (intro allI impI)
      fix j assume "j < Suc k"
      show "mts < w - int j * mts"
      proof (cases j)
        case 0
        then show ?thesis using True by simp
      next
        case (Suc i)
        then have "i < k" using \<open>j < Suc k\<close> by simp
        with k(3) have "mts < w - mts - int i * mts" by blast
        then show ?thesis by (simp add: Suc algebra_simps)
      qed
    qed
    ultimately show ?thesis using True by (intro exI [of _ "Suc k"]) simp
  qed
qed

lemma wait_loop_terminates:
  assumes "0 < mts"
  shows "\<exists>r. wait_loop mts w seq = Some r"
proof (induction "nat (w - mts)" arbitrary: w seq rule: less_induct)
  case less
  show ?case
  proof (cases "mts < w")
    case False
    then show ?thesis by (subst wait_loop.simps) simp
  next
    case True
    have "nat (w - mts - mts) < nat (w - mts)" using True assms by simp
    from less [OF this] obtain r where
      "wait_loop mts (w - mts) (seq @ [Tup2 ''wait'' (PInt mts)]) = Some r" by blast
    then show ?thesis using True by (subst wait_loop.simps) simp
  qed
qed

lemma sorted_le_last:
  assumes "sorted xs" "x \<in> set xs"
  shows "x \<le> last (xs :: int list)"
proof -
  from assms(2) obtain i where i: "i < length xs" "xs ! i = x" by (auto simp: in_set_conv_nth)
  then have ne: "xs \<noteq> []" by auto
  have "xs ! i \<le> xs ! (length xs - 1)"
    using assms(1) i(1) by (intro sorted_nth_mono) auto
  then show ?thesis using i(2) ne by (simp add: last_conv_nth)
qed

lemma time_ladder:
  assumes "TokenizerLazy_init cfg pad tt msl sl = Inr self" and "0 \<le> cfg_min_step cfg"
  shows "sorted (time_step_quantizations self)" "time_step_quantizations self \<noteq> []"
    and "max_time_step self \<in> set (time_step_quantizations self)"
    and "\<forall>n \<in> set (time_step_quantizations self). n \<le> max_time_step self"
proof -
  note it = init_time [OF assms(1)]
  show s: "sorted (time_step_quantizations self)"
    using assms(2) by (simp add: it(2) sorted_multiples_left)
  show ne: "time_step_quantizations self \<noteq> []"
    using it(4) by (simp add: it(2))
  show "max_time_step self \<in> set (time_step_quantizations self)"
    using ne by (simp add: it(3))
  show "\<forall>n \<in> set (time_step_quantizations self). n \<le> max_time_step self"
    using s by (auto simp: it(3) intro: sorted_le_last)
qed

lemma max_time_step_pos:
  assumes "TokenizerLazy_init cfg pad tt msl sl = Inr self"
    and "0 < cfg_min_step cfg" "2 \<le> cfg_num_steps cfg"
  shows "0 < max_time_step self"
proof -
  note it = init_time [OF assms(1)]
  let ?n = "cfg_num_steps cfg - 1"
  have "[0 .. ?n] = [0 .. ?n - 1] @ [?n]" using assms(3) upto_rec2 [of 0 ?n] by simp
  then have "last (map (\<lambda>i. cfg_min_step cfg * i) [0 .. ?n]) = cfg_min_step cfg * ?n" by simp
  then have "max_time_step self = cfg_min_step cfg * ?n" by (simp add: it(2,3))
  moreover have "0 < cfg_min_step cfg * ?n" using assms(2,3) by (intro mult_pos_pos) auto
  ultimately show ?thesis by simp
qed

lemma quantize_time_ladder:
  assumes "sorted (time_step_quantizations self)" "time_step_quantizations self \<noteq> []"
  shows "\<exists>n. quantize_time self w = PInt n \<and> n \<in> set (time_step_quantizations self)"
  using find_closest_int_min [OF assms, of w] by (auto simp: quantize_time_def)

lemma wait_tokens_result:
  assumes "get_duration_ms (nm_start msg) (nm_start next_msg) tmsgs tpb = Inr w"
    and "wait_tokens self tmsgs tpb msg next_msg seq = Some (Inr seq')"
  shows "\<exists>k. seq' = seq @ replicate k (Tup2 ''wait'' (PInt (max_time_step self)))
                    @ (if quantize_time self (w - int k * max_time_step self) \<noteq> PInt 0
                       then [Tup2 ''wait'' (quantize_time self (w - int k * max_time_step self))]
                       else [])
           \<and> w - int k * max_time_step self \<le> max_time_step self
           \<and> (k = 0 \<longleftrightarrow> w \<le> max_time_step self)
           \<and> (\<forall>j<k. max_time_step self < w - int j * max_time_step self)"
proof -
  from assms obtain r where r: "wait_loop (max_time_step self) w seq = Some r"
    by (auto simp: wait_tokens_def split: option.splits)
  from wait_loop_result [OF r] obtain k where
    k: "r = (seq @ replicate k (Tup2 ''wait'' (PInt (max_time_step self))),
             w - int k * max_time_step self)"
       "w - int k * max_time_step self \<le> max_time_step self"
       "k = 0 \<longleftrightarrow> w \<le> max_time_step self"
       "\<forall>j<k. max_time_step self < w - int j * max_time_step self"
    by blast
  have "seq' = seq @ replicate k (Tup2 ''wait'' (PInt (max_time_step self)))
                    @ (if quantize_time self (w - int k * max_time_step self) \<noteq> PInt 0
                       then [Tup2 ''wait'' (quantize_time self (w - int k * max_time_step self))]
                       else [])"
    using assms r by (simp add: wait_tokens_def k(1) Let_def split: if_splits)
  with k show ?thesis by blast
qed

lemma wait_tokens_total:
  assumes "0 < max_time_step self"
    and "get_duration_ms (nm_start msg) (nm_start next_msg) tmsgs tpb = Inr w"
  shows "\<exists>seq'. wait_tokens self tmsgs tpb msg next_msg seq = Some (Inr seq')"
proof -
  from wait_loop_terminates [OF assms(1), of w seq] obtain r where
    "wait_loop (max_time_step self) w seq = Some r" by blast
  then show ?thesis using assms(2) by (cases r) (simp add: wait_tokens_def Let_def)
qed

lemma wait_tokens_ok:
  assumes l: "sorted (time_step_quantizations self)" "time_step_quantizations self \<noteq> []"
      "max_time_step self \<in> set (time_step_quantizations self)"
      "\<forall>n \<in> set (time_step_quantizations self). n \<le> max_time_step self"
    and seq: "\<forall>t \<in> set seq. wait_ok self t"
    and res: "wait_tokens self tmsgs tpb msg next_msg seq = Some (Inr seq')"
  shows "\<forall>t \<in> set seq'. wait_ok self t"
proof -
  from res obtain w where w: "get_duration_ms (nm_start msg) (nm_start next_msg) tmsgs tpb = Inr w"
    by (auto simp: wait_tokens_def split: sum.splits)
  from wait_tokens_result [OF w res] obtain k where
    k: "seq' = seq @ replicate k (Tup2 ''wait'' (PInt (max_time_step self)))
                    @ (if quantize_time self (w - int k * max_time_step self) \<noteq> PInt 0
                       then [Tup2 ''wait'' (quantize_time self (w - int k * max_time_step self))]
                       else [])"
    by blast
  have m: "wait_ok self (Tup2 ''wait'' (PInt (max_time_step self)))"
    using l(3) by (simp add: wait_ok_def)
  have q: "wait_ok self (Tup2 ''wait'' (quantize_time self x))" for x
    using quantize_time_ladder [OF l(1,2), of x] l(4) by (auto simp: wait_ok_def)
  show ?thesis unfolding k using seq m q by auto
qed

lemma note_tokens_ok:
  assumes "note_tokens self tmsgs tpb c2i c2p msg = Inr toks"
  shows "\<forall>t \<in> set toks. wait_ok self t"
  using assms
  by (auto simp: note_tokens_def wait_ok_def Let_def split: if_splits option.splits sum.splits)

lemma tokenize_notes_ok:
  assumes l: "sorted (time_step_quantizations self)" "time_step_quantizations self \<noteq> []"
      "max_time_step self \<in> set (time_step_quantizations self)"
      "\<forall>n \<in> set (time_step_quantizations self). n \<le> max_time_step self"
  shows "\<forall>t \<in> set seq. wait_ok self t \<Longrightarrow>
         tokenize_notes self tmsgs tpb c2i c2p msgs seq = Some (Inr seq') \<Longrightarrow>
         \<forall>t \<in> set seq'. wait_ok self t"
proof (induction msgs arbitrary: seq)
  case Nil
  then show ?case by simp
next
  case (Cons msg rest)
  from Cons.prems(2) obtain toks where toks: "note_tokens self tmsgs tpb c2i c2p msg = Inr toks"
    by (auto split: sum.splits)
  have ok: "\<forall>t \<in> set (seq @ toks). wait_ok self t"
    using Cons.prems(1) note_tokens_ok [OF toks] by auto
  show ?case
  proof (cases rest)
    case Nil
    with Cons.prems(2) toks have "seq' = seq @ toks" by simp
    with ok show ?thesis by simp
  next
    case (Cons next_msg rest')
    with Cons.prems(2) toks obtain seq1 where
      s1: "wait_tokens self tmsgs tpb msg next_msg (seq @ toks) = Some (Inr seq1)"
          "tokenize_notes self tmsgs tpb c2i c2p rest seq1 = Some (Inr seq')"
      by (auto split: option.splits sum.splits)
    have "\<forall>t \<in> set seq1. wait_ok self t"
      using l ok s1(1) by (rule wait_tokens_ok)
    then show ?thesis using s1(2) by (rule Cons.IH)
  qed
qed

lemma py_slice_subset: "set (py_slice xs a b) \<subseteq> set xs"
  unfolding py_slice_def Let_def
  using set_take_subset set_drop_subset by fast

lemma strided_loop_subset:
  assumes "strided_loop prefix body msl sl idx res = Some r"
  shows "\<forall>res' idx'. r = Inr (res', idx') \<longrightarrow>
           (\<forall>w \<in> set res'. w \<in> set res \<or> set w \<subseteq> set prefix \<union> set body)"
proof (rule strided_loop.raw_induct
    [where P = "\<lambda>prefix body msl sl idx res r. \<forall>res' idx'. r = Inr (res', idx') \<longrightarrow>
           (\<forall>w \<in> set res'. w \<in> set res \<or> set w \<subseteq> set prefix \<union> set body)", OF _ assms])
  fix strided_loop' :: "token list \<Rightarrow> token list \<Rightarrow> int \<Rightarrow> int option \<Rightarrow> int \<Rightarrow> token list list \<Rightarrow>
                        (error + token list list \<times> int) option"
  fix prefix body msl sl idx res r
  assume IH: "\<And>prefix body msl sl idx res r. strided_loop' prefix body msl sl idx res = Some r \<Longrightarrow>
           \<forall>res' idx'. r = Inr (res', idx') \<longrightarrow>
           (\<forall>w \<in> set res'. w \<in> set res \<or> set w \<subseteq> set prefix \<union> set body)"
    and body: "(if idx + msl - int (length prefix) < int (length body)
      then (case sl of
              None \<Rightarrow> Some (Inl TypeError)
            | Some s \<Rightarrow>
                strided_loop' prefix body msl sl (idx + s)
                  (res @ [prefix @ py_slice body idx (idx + msl - int (length prefix))]))
      else Some (Inr (res, idx))) = Some r"
  show "\<forall>res' idx'. r = Inr (res', idx') \<longrightarrow>
           (\<forall>w \<in> set res'. w \<in> set res \<or> set w \<subseteq> set prefix \<union> set body)"
  proof (cases "idx + msl - int (length prefix) < int (length body)")
    case False
    with body show ?thesis by auto
  next
    case True
    show ?thesis
    proof (cases sl)
      case None
      with True body show ?thesis by auto
    next
      case (Some s)
      define w0 where "w0 = prefix @ py_slice body idx (idx + msl - int (length prefix))"
      from True Some body have "strided_loop' prefix body msl sl (idx + s) (res @ [w0]) = Some r"
        by (simp add: w0_def)
      from IH [OF this] have
        "\<forall>res' idx'. r = Inr (res', idx') \<longrightarrow>
           (\<forall>w \<in> set res'. w \<in> set (res @ [w0]) \<or> set w \<subseteq> set prefix \<union> set body)" .
      moreover have "set w0 \<subseteq> set prefix \<union> set body"
        using py_slice_subset [of body] by (auto simp: w0_def)
      ultimately show ?thesis by (simp only: set_append list.set Un_iff) blast
    qed
  qed
qed

lemma pad_to_subset: "set (pad_to msl seq) \<subseteq> set seq \<union> {pad_tok}"
  by (auto simp: pad_to_def)

lemma truncate_subset:
  assumes "truncate self prefix seq = Some (Inr windows)"
  shows "\<forall>w \<in> set windows. set w \<subseteq> set prefix \<union> set seq \<union> {bos_tok, eos_tok, pad_tok}"
proof -
  let ?U = "set prefix \<union> set seq \<union> {bos_tok, eos_tok, pad_tok}"
  let ?body = "[bos_tok] @ seq @ [eos_tok]"
  have full: "set (prefix @ ?body) \<subseteq> ?U" by auto
  consider (none) "truncate_type self = ''none''"
    | (default) "truncate_type self \<noteq> ''none''" "truncate_type self = ''default''"
    | (strided) "truncate_type self \<noteq> ''none''" "truncate_type self \<noteq> ''default''"
        "truncate_type self = ''strided''"
    | (other) "truncate_type self \<noteq> ''none''" "truncate_type self \<noteq> ''default''"
        "truncate_type self \<noteq> ''strided''"
    by blast
  then show ?thesis
  proof cases
    case none
    with assms have "windows = [prefix @ ?body]" by (simp add: truncate_def)
    with full show ?thesis by simp
  next
    case default
    let ?r = "if padding self then pad_to (max_seq_len self) (prefix @ ?body) else prefix @ ?body"
    from default assms have w: "windows = [py_slice ?r 0 (max_seq_len self)]"
      by (auto simp: truncate_def Let_def)
    have "set ?r \<subseteq> ?U" using pad_to_subset [of "max_seq_len self" "prefix @ ?body"] full by auto
    then show ?thesis unfolding w using py_slice_subset [of ?r 0 "max_seq_len self"] by auto
  next
    case strided
    with assms have t: "truncate_strided self prefix seq = Some (Inr windows)"
      by (simp add: truncate_def)
    then obtain res idx where
      l: "strided_loop prefix ?body (max_seq_len self) (stride_len self) 0 [] = Some (Inr (res, idx))"
      by (auto simp: truncate_strided_def Let_def split: option.splits sum.splits)
    let ?seq = "prefix @ py_slice ?body idx (idx + max_seq_len self - int (length prefix))"
    let ?seq' = "if padding self then pad_to (max_seq_len self) ?seq else ?seq"
    from t l have w: "windows = res @ [?seq']"
      by (auto simp: truncate_strided_def Let_def)
    have r: "\<forall>w \<in> set res. set w \<subseteq> set prefix \<union> set ?body"
      using strided_loop_subset [OF l] by simp
    have "set ?seq \<subseteq> set prefix \<union> set ?body" using py_slice_subset [of ?body] by auto
    then have "set ?seq' \<subseteq> ?U" using pad_to_subset [of "max_seq_len self" ?seq] by auto
    moreover have "\<forall>w \<in> set res. set w \<subseteq> ?U" using r by auto
    ultimately show ?thesis unfolding w by auto
  next
    case other
    with assms show ?thesis by (simp add: truncate_def)
  qed
qed

lemma tokenize_midi_dict_ok:
  assumes l: "sorted (time_step_quantizations self)" "time_step_quantizations self \<noteq> []"
      "max_time_step self \<in> set (time_step_quantizations self)"
      "\<forall>n \<in> set (time_step_quantizations self). n \<le> max_time_step self"
    and res: "tokenize_midi_dict list_of_set self md = Some (Inr windows)"
  shows "\<forall>w \<in> set windows. \<forall>t \<in> set w. wait_ok self t"
proof -
  from res obtain md' :: midi_dict and c2p c2i names seq where
    n: "tokenize_notes self (tempo_msgs md') (ticks_per_beat md) c2i c2p (note_msgs md') [] = Some (Inr seq)"
    and t: "truncate self (map Str names) seq = Some (Inr windows)"
    by (auto simp: tokenize_midi_dict_def Let_def split: sum.splits option.splits)
  have "\<forall>t \<in> set seq. wait_ok self t"
    using tokenize_notes_ok [OF l _ n] by simp
  moreover have "\<forall>t \<in> set (map Str names) \<union> {bos_tok, eos_tok, pad_tok}. wait_ok self t"
    by (auto simp: wait_ok_def bos_tok_def eos_tok_def pad_tok_def)
  ultimately show ?thesis using truncate_subset [OF t] by blast
qed

text \<open>The durations and quantised values of the stream \<open>two_notes\<close>.\<close>

lemma dur250: "get_duration_ms 0 240 [\<lparr> tm_tick = 0, tm_data = 500000 \<rparr>] 480 = Inr 250"
  by (simp add: get_duration_ms_def tick2second_def py_round_def Let_def)

lemma dur100: "get_duration_ms 0 96 [\<lparr> tm_tick = 0, tm_data = 500000 \<rparr>] 480 = Inr 100"
  by (simp add: get_duration_ms_def tick2second_def py_round_def Let_def)

lemma dur100': "get_duration_ms 240 336 [\<lparr> tm_tick = 0, tm_data = 500000 \<rparr>] 480 = Inr 100"
  by (simp add: get_duration_ms_def tick2second_def py_round_def Let_def)

lemma q50: "find_closest_int 50 [0, 10, 20, 30, 40, 50, 60, 70, 80, 90, 100] = PInt 50"
  by (simp add: find_closest_int_def find_closest_loop.simps)

lemma q100: "find_closest_int 100 [0, 10, 20, 30, 40, 50, 60, 70, 80, 90, 100] = PInt 100"
  by (simp add: find_closest_int_def find_closest_loop.simps)

lemma q64: "find_closest_int 64 [0, 10, 20, 30, 40, 50, 60, 70, 80, 90, 100, 110, 120] = PInt 60"
  by (simp add: find_closest_int_def find_closest_loop.simps)

text \<open>
  With the example configuration no program is removed; the wait tokens and the windows
  of the stream \<open>two_notes\<close>.
\<close>

lemma example_programs_to_remove:
  "programs_to_remove (example_tokenizer pad tt msl sl) = Inr []"
proof -
  let ?T = "example_tokenizer pad tt msl sl"
  have c: "\<forall>name \<in> set instrument_classes. ignore_instruments ?T name \<noteq> None"
    by (rule example_tokenizer_complete)
  have f: "ignore_instruments ?T name \<noteq> Some True" for name
  proof
    assume "ignore_instruments ?T name = Some True"
    then have "map_of (map (\<lambda>name. (name, False)) instrument_classes) name = Some True"
      by (simp add: example_tokenizer_def example_config_def)
    from map_of_SomeD [OF this] show False by auto
  qed
  have "\<not> (\<exists>i \<in> set [1 .. 127].
           (case program_to_instrument i of
              None \<Rightarrow> True
            | Some name \<Rightarrow> ignore_instruments ?T name = None))"
  proof
    assume "\<exists>i \<in> set [1 .. 127].
           (case program_to_instrument i of
              None \<Rightarrow> True
            | Some name \<Rightarrow> ignore_instruments ?T name = None)"
    then obtain i where i: "i \<in> set [1 .. 127]"
      "case program_to_instrument i of None \<Rightarrow> True
       | Some name \<Rightarrow> ignore_instruments ?T name = None"
      by blast
    from program_class [OF i(1)] obtain name where
      "name \<in> set instrument_classes" "program_to_instrument i = Some name" by blast
    with i(2) c show False by simp
  qed
  moreover have "filter (\<lambda>i. case program_to_instrument i of
                               None \<Rightarrow> False
                             | Some name \<Rightarrow> ignore_instruments ?T name = Some True)
                  [1 .. 127] = []"
    using f by (auto simp: filter_empty_conv split: option.splits)
  ultimately show ?thesis unfolding programs_to_remove_def by (simp only: if_False)
qed

lemma example_remove_instruments:
  "remove_instruments (example_tokenizer pad tt msl sl) md = Inr md"
  by (simp add: remove_instruments_def example_programs_to_remove)

lemma two_notes_wait:
  "wait_tokens (example_tokenizer False ''none'' 4 None) (tempo_msgs two_notes) 480
     (note_msgs two_notes ! 0) (note_msgs two_notes ! 1) []
   = Some (Inr [Tup2 ''wait'' (PInt 100), Tup2 ''wait'' (PInt 100), Tup2 ''wait'' (PInt 50)])"
  by (simp add: wait_tokens_def two_notes_def dur250 wait_loop.simps example_tokenizer_def
        quantize_time_def q50)

lemma two_notes_tokens:
  "tokenize_midi_dict reversed_set_order (example_tokenizer False ''none'' 4 None) two_notes
   = Some (Inr [[Str ''piano'', bos_tok,
                 Tup3 ''piano'' 60 (PInt 60), Tup2 ''dur'' (PInt 100),
                 Tup2 ''wait'' (PInt 100), Tup2 ''wait'' (PInt 100), Tup2 ''wait'' (PInt 50),
                 Tup3 ''piano'' 62 (PInt 60), Tup2 ''dur'' (PInt 100), eos_tok]])"
proof -
  let ?T = "example_tokenizer False ''none'' 4 None"
  have b: "build_pedal_intervals two_notes = Inr (\<lambda>c. [])"
    by (simp add: build_pedal_intervals_def two_notes_def)
  have c: "channel_to_instrument (instrument_msgs two_notes) Map.empty = Inr [0 \<mapsto> ''piano'']"
    by (simp add: two_notes_def is_drum_channel_def program_to_instrument_def instrument_classes_def)
  have p: "present_instruments reversed_set_order (instrument_msgs two_notes) = Inr [''piano'']"
    by (simp add: present_instruments_def two_notes_def is_drum_channel_def
          program_to_instrument_def instrument_classes_def reversed_set_order_def)
  have f: "time_step_quantizations ?T = [0, 10, 20, 30, 40, 50, 60, 70, 80, 90, 100]"
    "velocity_quantizations ?T = [0, 10, 20, 30, 40, 50, 60, 70, 80, 90, 100, 110, 120]"
    "max_time_step ?T = 100" "min_time_step ?T = 10" "velocity_step ?T = 10"
    "truncate_type ?T = ''none''"
    by (simp_all add: example_tokenizer_def)
  have n: "tokenize_notes ?T (tempo_msgs two_notes) 480 [0 \<mapsto> ''piano''] (\<lambda>c. [])
             (note_msgs two_notes) []
           = Some (Inr [Tup3 ''piano'' 60 (PInt 60), Tup2 ''dur'' (PInt 100),
                 Tup2 ''wait'' (PInt 100), Tup2 ''wait'' (PInt 100), Tup2 ''wait'' (PInt 50),
                 Tup3 ''piano'' 62 (PInt 60), Tup2 ''dur'' (PInt 100)])"
    by (simp add: two_notes_def note_tokens_def wait_tokens_def is_drum_channel_def
          dur100 dur100' dur250 wait_loop.simps quantize_time_def quantize_velocity_def
          f q50 q100 q64 Let_def)
  have t: "ticks_per_beat two_notes = 480" by (simp add: two_notes_def)
  show ?thesis
    by (simp add: tokenize_midi_dict_def example_remove_instruments b c p n t truncate_def f Let_def)
qed

text \<open>
  C4: for a tokenizer built by the constructor with a positive minimum step and at least
  two time steps, every wait token in every window that the encoder returns carries an
  integer that is a member of the time ladder and at most the ladder's maximum. A raw
  gap \<open>w\<close> between two notes gives \<open>k\<close> wait tokens of the maximum, where each of them is
  emitted while the gap still exceeds the maximum and takes the maximum off it (\<open>k = 0\<close>
  exactly when \<open>w\<close> does not exceed the maximum), followed by the quantised remainder
  \<open>w - k * max\<close>, which is at most the maximum and is emitted only if it is not zero.
\<close>

theorem wait_tokens_in_ladder:
  assumes init: "TokenizerLazy_init cfg pad tt msl sl = Inr self"
    and cfg: "0 < cfg_min_step cfg" "2 \<le> cfg_num_steps cfg"
  shows "(\<forall>windows. tokenize_midi_dict list_of_set self md = Some (Inr windows) \<longrightarrow>
            (\<forall>w \<in> set windows. \<forall>v. Tup2 ''wait'' v \<in> set w \<longrightarrow>
               (\<exists>n. v = PInt n \<and> n \<in> set (time_step_quantizations self)
                    \<and> n \<le> max_time_step self)))
       \<and> (\<forall>w. get_duration_ms (nm_start msg) (nm_start next_msg) tmsgs tpb = Inr w \<longrightarrow>
            (\<exists>k. wait_tokens self tmsgs tpb msg next_msg seq =
                    Some (Inr (seq @ replicate k (Tup2 ''wait'' (PInt (max_time_step self)))
                      @ (if quantize_time self (w - int k * max_time_step self) \<noteq> PInt 0
                         then [Tup2 ''wait'' (quantize_time self (w - int k * max_time_step self))]
                         else [])))
                \<and> w - int k * max_time_step self \<le> max_time_step self
                \<and> (k = 0 \<longleftrightarrow> w \<le> max_time_step self)
                \<and> (\<forall>j<k. max_time_step self < w - int j * max_time_step self)))"
proof -
  have m: "0 \<le> cfg_min_step cfg" using cfg(1) by simp
  note l = time_ladder [OF init m]
  have A: "\<exists>n. v = PInt n \<and> n \<in> set (time_step_quantizations self) \<and> n \<le> max_time_step self"
    if "tokenize_midi_dict list_of_set self md = Some (Inr windows)"
      "w \<in> set windows" "Tup2 ''wait'' v \<in> set w" for windows w v
    using tokenize_midi_dict_ok [OF l that(1)] that(2,3) by (auto simp: wait_ok_def)
  have B: "\<exists>k. wait_tokens self tmsgs tpb msg next_msg seq =
                    Some (Inr (seq @ replicate k (Tup2 ''wait'' (PInt (max_time_step self)))
                      @ (if quantize_time self (w - int k * max_time_step self) \<noteq> PInt 0
                         then [Tup2 ''wait'' (quantize_time self (w - int k * max_time_step self))]
                         else [])))
                \<and> w - int k * max_time_step self \<le> max_time_step self
                \<and> (k = 0 \<longleftrightarrow> w \<le> max_time_step self)
                \<and> (\<forall>j<k. max_time_step self < w - int j * max_time_step self)"
    if w: "get_duration_ms (nm_start msg) (nm_start next_msg) tmsgs tpb = Inr w" for w
  proof -
    from wait_tokens_total [OF max_time_step_pos [OF init cfg] w] obtain seq' where
      s: "wait_tokens self tmsgs tpb msg next_msg seq = Some (Inr seq')" by blast
    from wait_tokens_result [OF w s] show ?thesis unfolding s by blast
  qed
  show ?thesis using A B by blast
qed

text \<open>
  The theorem of C4 at the stream \<open>two_notes\<close>, minimum step 10 ms and maximum 100 ms:
  the gap of 250 ms yields the wait tokens 100, 100 and 50.
\<close>

theorem wait_tokens_in_ladder_witness:
  "TokenizerLazy_init example_config False ''none'' 4 None
     = Inr (example_tokenizer False ''none'' 4 None)
   \<and> 0 < cfg_min_step example_config \<and> 2 \<le> cfg_num_steps example_config
   \<and> max_time_step (example_tokenizer False ''none'' 4 None) = 100
   \<and> get_duration_ms (nm_start (note_msgs two_notes ! 0)) (nm_start (note_msgs two_notes ! 1))
        (tempo_msgs two_notes) 480 = Inr 250
   \<and> wait_tokens (example_tokenizer False ''none'' 4 None) (tempo_msgs two_notes) 480
        (note_msgs two_notes ! 0) (note_msgs two_notes ! 1) []
       = Some (Inr [Tup2 ''wait'' (PInt 100), Tup2 ''wait'' (PInt 100), Tup2 ''wait'' (PInt 50)])
   \<and> tokenize_midi_dict reversed_set_order (example_tokenizer False ''none'' 4 None) two_notes
       = Some (Inr [[Str ''piano'', bos_tok,
                 Tup3 ''piano'' 60 (PInt 60), Tup2 ''dur'' (PInt 100),
                 Tup2 ''wait'' (PInt 100), Tup2 ''wait'' (PInt 100), Tup2 ''wait'' (PInt 50),
                 Tup3 ''piano'' 62 (PInt 60), Tup2 ''dur'' (PInt 100), eos_tok]])
   \<and> (\<exists>n. n \<in> set (time_step_quantizations (example_tokenizer False ''none'' 4 None))
          \<and> n \<le> max_time_step (example_tokenizer False ''none'' 4 None) \<and> n = 50)"
proof -
  let ?T = "example_tokenizer False ''none'' 4 None"
  let ?w = "[Str ''piano'', bos_tok,
                 Tup3 ''piano'' 60 (PInt 60), Tup2 ''dur'' (PInt 100),
                 Tup2 ''wait'' (PInt 100), Tup2 ''wait'' (PInt 100), Tup2 ''wait'' (PInt 50),
                 Tup3 ''piano'' 62 (PInt 60), Tup2 ''dur'' (PInt 100), eos_tok]"
  have t: "Tokenizer_init ''none'' 4 None = Inr ()" by (simp add: Tokenizer_init_def)
  note e = example_init [OF t, of False]
  have c: "0 < cfg_min_step example_config" "2 \<le> cfg_num_steps example_config"
    by (simp_all add: example_config_def)
  have m: "max_time_step ?T = 100" by (simp add: example_tokenizer_def)
  have d: "get_duration_ms (nm_start (note_msgs two_notes ! 0)) (nm_start (note_msgs two_notes ! 1))
        (tempo_msgs two_notes) 480 = Inr 250"
    by (simp add: two_notes_def dur250)
  note th = wait_tokens_in_ladder [OF e c, where list_of_set = reversed_set_order
              and md = two_notes]
  from th have "\<forall>windows. tokenize_midi_dict reversed_set_order ?T two_notes = Some (Inr windows) \<longrightarrow>
            (\<forall>w \<in> set windows. \<forall>v. Tup2 ''wait'' v \<in> set w \<longrightarrow>
               (\<exists>n. v = PInt n \<and> n \<in> set (time_step_quantizations ?T)
                    \<and> n \<le> max_time_step ?T))"
    by (rule conjunct1)
  then have "\<forall>w \<in> set [?w]. \<forall>v. Tup2 ''wait'' v \<in> set w \<longrightarrow>
               (\<exists>n. v = PInt n \<and> n \<in> set (time_step_quantizations ?T)
                    \<and> n \<le> max_time_step ?T)"
    using two_notes_tokens by blast
  then have "Tup2 ''wait'' (PInt 50) \<in> set ?w \<longrightarrow>
               (\<exists>n. PInt 50 = PInt n \<and> n \<in> set (time_step_quantizations ?T)
                    \<and> n \<le> max_time_step ?T)"
    by (simp only: list.set ball_simps) blast
  then have w: "\<exists>n. n \<in> set (time_step_quantizations ?T) \<and> n \<le> max_time_step ?T \<and> n = 50"
    by auto
  show ?thesis by (intro conjI e c m d two_notes_wait two_notes_tokens w)
qed

section \<open>Properties of the duration calculator\<close>

text \<open>
  The time of the specification over a range of ticks with one tempo, and the tempo in
  force after the change of \<open>two_tempos\<close>.
\<close>

lemma sum_list_const:
  assumes "\<forall>t \<in> set ts. f t = (c :: int)"
  shows "sum_list (map f ts) = int (length ts) * c"
  using assms by (induction ts) (auto simp: algebra_simps)

lemma spec_duration_const:
  assumes "a \<le> b" and "\<forall>t. a \<le> t \<and> t < b \<longrightarrow> tempo_at tmsgs t = c"
  shows "spec_duration_ms a b tmsgs tpb = py_round (of_int ((b - a) * c) / (1000 * of_int tpb))"
proof -
  have "\<forall>t \<in> set [a .. b - 1]. tempo_at tmsgs t = c" using assms(2) by simp
  then have "sum_list (map (tempo_at tmsgs) [a .. b - 1]) = int (length [a .. b - 1]) * c"
    by (rule sum_list_const)
  also have "\<dots> = (b - a) * c" using assms(1) by simp
  finally show ?thesis by (simp only: spec_duration_ms_def)
qed

lemma two_tempos_late: "480 \<le> t \<Longrightarrow> tempo_at two_tempos t = 1000000"
  by (simp add: tempo_at_def two_tempos_def)

text \<open>
  Agreement away from the tail. On a tempo map sorted by tick whose first entry is not
  after the start tick, \<^verbatim>\<open>_get_duration_ms\<close> returns the integral of the specification
  whenever the map has a single entry or the start tick is not after the last tempo
  change: the search loop then leaves through its \<^verbatim>\<open>break\<close> (or \<open>idx\<close> is 0), and the
  decrement of \<open>idx\<close> selects the entry in force at the start tick.
\<close>

lemma tempo_sum_split:
  assumes "a \<le> b" "b \<le> c"
  shows "sum_list (map f [a .. c - 1]) = sum_list (map f [a .. b - 1]) + sum_list (map f [b .. c - (1 :: int)])"
proof (cases "a = b")
  case True
  then show ?thesis by simp
next
  case False
  then have "a \<le> b - 1" "b - 1 \<le> c - 1" using assms by auto
  then have "[a .. c - 1] = [a .. b - 1] @ [b - 1 + 1 .. c - 1]" by (rule upto_split2)
  then show ?thesis by simp
qed

lemma tempo_at_segment:
  assumes srt: "sorted (map tm_tick (pre @ m # rest))"
    and lo: "tm_tick m \<le> t" and hi: "rest = [] \<or> t < tm_tick (hd rest)"
  shows "tempo_at (pre @ m # rest) t = tm_data m"
proof -
  have pre: "\<forall>x \<in> set pre. tm_tick x \<le> t"
    using srt lo by (auto simp: sorted_append)
  have rest: "\<forall>x \<in> set rest. \<not> tm_tick x \<le> t"
  proof (cases rest)
    case Nil
    then show ?thesis by simp
  next
    case (Cons n rest')
    with hi have "t < tm_tick n" by simp
    moreover have "\<forall>x \<in> set rest. tm_tick n \<le> tm_tick x"
      using srt Cons by (auto simp: sorted_append)
    ultimately show ?thesis by fastforce
  qed
  have "filter (\<lambda>x. tm_tick x \<le> t) (pre @ m # rest) = pre @ [m]"
    using pre rest lo by (simp add: filter_empty_conv)
  then show ?thesis by (simp add: tempo_at_def)
qed

lemma tempo_sum_segment:
  assumes srt: "sorted (map tm_tick (pre @ m # rest))"
    and lo: "tm_tick m \<le> a" and ab: "a \<le> b"
    and hi: "rest = [] \<or> b \<le> tm_tick (hd rest)"
  shows "sum_list (map (tempo_at (pre @ m # rest)) [a .. b - 1]) = (b - a) * tm_data m"
proof -
  have "\<forall>t \<in> set [a .. b - 1]. tempo_at (pre @ m # rest) t = tm_data m"
  proof
    fix t assume "t \<in> set [a .. b - 1]"
    then have "a \<le> t" "t < b" by auto
    then show "tempo_at (pre @ m # rest) t = tm_data m"
      using srt lo hi by (intro tempo_at_segment) auto
  qed
  then have "sum_list (map (tempo_at (pre @ m # rest)) [a .. b - 1])
               = int (length [a .. b - 1]) * tm_data m"
    by (rule sum_list_const)
  then show ?thesis using ab by simp
qed

lemma tick2second_Inr:
  "tpb \<noteq> 0 \<Longrightarrow>
     tick2second d tempo tpb = Inr (of_int (d * tempo) * (1 / 1000000 / of_int tpb))"
  by (simp add: tick2second_def)

lemma segment_finish:
  assumes tpb: "tpb \<noteq> 0"
  shows "sorted (map tm_tick (pre @ m # rest)) \<Longrightarrow> tm_tick m \<le> c \<Longrightarrow> c \<le> e \<Longrightarrow>
         rest = [] \<or> c \<le> tm_tick (hd rest) \<Longrightarrow>
         (case segment_loop e tpb (zip (m # rest) rest) dur c of
            Inl err \<Rightarrow> Inl err
          | Inr (duration, curr_tick) \<Rightarrow>
              if tm_tick (last (m # rest)) < e
              then (case tick2second (e - curr_tick) (tm_data (last (m # rest))) tpb of
                      Inl err \<Rightarrow> Inl err
                    | Inr sec \<Rightarrow> Inr (py_round ((duration + sec) * 1000)))
              else Inr (py_round (duration * 1000)))
         = Inr (py_round ((dur + of_int (sum_list (map (tempo_at (pre @ m # rest)) [c .. e - 1]))
                                   * (1 / 1000000 / of_int tpb)) * 1000))"
proof (induction rest arbitrary: pre m c dur)
  case Nil
  let ?S = "sum_list (map (tempo_at (pre @ [m])) [c .. e - 1])"
  have S: "?S = (e - c) * tm_data m"
    using Nil.prems by (intro tempo_sum_segment) auto
  show ?case
  proof (cases "tm_tick m < e")
    case True
    then show ?thesis
      by (simp add: tick2second_Inr [OF tpb] S)
  next
    case False
    with Nil.prems have "c = e" by simp
    then show ?thesis using False by simp
  qed
next
  case (Cons n rest)
  let ?msgs = "pre @ m # n # rest"
  have srt: "sorted (map tm_tick ?msgs)" using Cons.prems(1) .
  have cn: "c \<le> tm_tick n" using Cons.prems(4) by simp
  have last_ge: "tm_tick n \<le> tm_tick (last (n # rest))"
    using srt by (auto simp: sorted_append)
  show ?case
  proof (cases "e < tm_tick n")
    case True
    have S: "sum_list (map (tempo_at ?msgs) [c .. e - 1]) = (e - c) * tm_data m"
      using srt Cons.prems(2,3) True by (intro tempo_sum_segment) auto
    have "\<not> tm_tick (last (n # rest)) < e" using True last_ge by simp
    then show ?thesis using True
      by (simp add: tick2second_Inr [OF tpb] S Let_def)
  next
    case False
    then have ne: "tm_tick n \<le> e" by simp
    let ?dur' = "dur + of_int ((tm_tick n - c) * tm_data m) * (1 / 1000000 / of_int tpb)"
    have S1: "sum_list (map (tempo_at ?msgs) [c .. tm_tick n - 1]) = (tm_tick n - c) * tm_data m"
      using srt Cons.prems(2) cn by (intro tempo_sum_segment) auto
    have split: "sum_list (map (tempo_at ?msgs) [c .. e - 1])
                  = sum_list (map (tempo_at ?msgs) [c .. tm_tick n - 1])
                    + sum_list (map (tempo_at ?msgs) [tm_tick n .. e - 1])"
      using cn ne by (rule tempo_sum_split)
    have srt': "sorted (map tm_tick ((pre @ [m]) @ n # rest))" using srt by simp
    have next_ok: "rest = [] \<or> tm_tick n \<le> tm_tick (hd rest)"
      using srt by (cases rest) (auto simp: sorted_append)
    note IH = Cons.IH [OF srt' order_refl ne next_ok, of ?dur']
    have step: "segment_loop e tpb (zip (m # n # rest) (n # rest)) dur c
                = segment_loop e tpb (zip (n # rest) rest) ?dur' (tm_tick n)"
      using False by (simp add: tick2second_Inr [OF tpb] Let_def)
    have l: "last (m # n # rest) = last (n # rest)" by simp
    have ar: "?dur' + of_int (sum_list (map (tempo_at ?msgs) [tm_tick n .. e - 1]))
                        * (1 / 1000000 / of_int tpb)
              = dur + of_int (sum_list (map (tempo_at ?msgs) [c .. e - 1]))
                        * (1 / 1000000 / of_int tpb)"
      unfolding split S1 by (simp only: of_int_add ring_distribs add.assoc)
    show ?thesis
      unfolding step l using IH by (simp only: ar append_assoc append_Cons append_Nil)
  qed
qed

lemma enumerate_idx_spec:
  "msgs \<noteq> [] \<Longrightarrow>
     \<exists>i. enumerate_idx start msgs = Some i \<and> i < length msgs
         \<and> (\<forall>j<i. tm_tick (msgs ! j) < start)
         \<and> (start \<le> tm_tick (msgs ! i) \<or> i = length msgs - 1)"
proof (induction start msgs rule: enumerate_idx.induct)
  case (1 start)
  then show ?case by simp
next
  case (2 start curr_msg)
  show ?case by simp
next
  case (3 start curr_msg v va)
  show ?case
  proof (cases "start \<le> tm_tick curr_msg")
    case True
    then show ?thesis by simp
  next
    case False
    with 3 obtain i where i: "enumerate_idx start (v # va) = Some i" "i < length (v # va)"
      "\<forall>j<i. tm_tick ((v # va) ! j) < start"
      "start \<le> tm_tick ((v # va) ! i) \<or> i = length (v # va) - 1"
      by auto
    have "\<forall>j<Suc i. tm_tick ((curr_msg # v # va) ! j) < start"
    proof (intro allI impI)
      fix j assume "j < Suc i"
      then show "tm_tick ((curr_msg # v # va) ! j) < start"
        using False i(3) by (cases j) auto
    qed
    then show ?thesis using False i(1,2,4) by (intro exI [of _ "Suc i"]) auto
  qed
qed

lemma get_duration_ms_spec:
  assumes srt: "sorted (map tm_tick msgs)" and ne: "msgs \<noteq> []" and tpb: "tpb \<noteq> 0"
    and lo: "tm_tick (hd msgs) \<le> start_tick" and se: "start_tick \<le> end_tick"
    and hi: "length msgs = 1 \<or> start_tick \<le> tm_tick (last msgs)"
  shows "get_duration_ms start_tick end_tick msgs tpb
           = Inr (spec_duration_ms start_tick end_tick msgs tpb)"
proof -
  from enumerate_idx_spec [OF ne, of start_tick] obtain i where
    i: "enumerate_idx start_tick msgs = Some i" "i < length msgs"
       "\<forall>j<i. tm_tick (msgs ! j) < start_tick"
       "start_tick \<le> tm_tick (msgs ! i) \<or> i = length msgs - 1"
    by blast
  define idx where "idx = (if 0 < i then i - 1 else i)"
  define pre where "pre = take idx msgs"
  define m where "m = msgs ! idx"
  define rest where "rest = drop (Suc idx) msgs"
  have idx: "idx < length msgs" using i(2) ne by (auto simp: idx_def)
  have dr: "drop idx msgs = m # rest"
    using idx by (simp add: m_def rest_def Cons_nth_drop_Suc)
  have msgs: "msgs = pre @ m # rest"
    unfolding pre_def dr [symmetric] by (rule append_take_drop_id [symmetric])
  have nth_mono: "tm_tick (msgs ! a) \<le> tm_tick (msgs ! b)" if "a \<le> b" "b < length msgs" for a b
    using sorted_nth_mono [OF srt, of a b] that by simp
  have ilast: "start_tick \<le> tm_tick (msgs ! i)" if "0 < i"
  proof (rule disjE [OF i(4)])
    assume "i = length msgs - 1"
    with that have "length msgs \<noteq> 1" by simp
    with hi have "start_tick \<le> tm_tick (last msgs)" by simp
    then show ?thesis using ne \<open>i = length msgs - 1\<close> by (simp add: last_conv_nth)
  qed
  have mlo: "tm_tick m \<le> start_tick"
  proof (cases "0 < i")
    case True
    then have "idx < i" by (simp add: idx_def)
    with i(3) show ?thesis by (auto simp: m_def less_imp_le)
  next
    case False
    then have "idx = 0" by (simp add: idx_def)
    then show ?thesis using lo ne by (simp add: m_def hd_conv_nth)
  qed
  have rhi: "rest = [] \<or> start_tick \<le> tm_tick (hd rest)"
  proof (cases "rest = []")
    case True
    then show ?thesis by simp
  next
    case False
    then have s: "Suc idx < length msgs" by (simp add: rest_def)
    then have h: "hd rest = msgs ! Suc idx" by (simp add: rest_def hd_drop_conv_nth)
    show ?thesis
    proof (cases "0 < i")
      case True
      then have "Suc idx = i" by (simp add: idx_def)
      then show ?thesis using ilast [OF True] h by simp
    next
      case False
      then have z: "i = 0" "idx = 0" by (simp_all add: idx_def)
      with s i(4) have "start_tick \<le> tm_tick (msgs ! 0)" by auto
      also have "\<dots> \<le> tm_tick (msgs ! Suc 0)" using s z by (intro nth_mono) auto
      finally show ?thesis using h z by simp
    qed
  qed
  have srt': "sorted (map tm_tick (pre @ m # rest))" using srt msgs by simp
  have z: "zip (drop idx msgs) (drop (idx + 1) msgs) = zip (m # rest) rest"
    by (simp add: dr rest_def)
  have l: "last msgs = last (m # rest)"
    by (subst msgs) simp
  have fin: "(case segment_loop end_tick tpb (zip (m # rest) rest) 0 start_tick of
            Inl err \<Rightarrow> Inl err
          | Inr (duration, curr_tick) \<Rightarrow>
              if tm_tick (last (m # rest)) < end_tick
              then (case tick2second (end_tick - curr_tick) (tm_data (last (m # rest))) tpb of
                      Inl err \<Rightarrow> Inl err
                    | Inr sec \<Rightarrow> Inr (py_round ((duration + sec) * 1000)))
              else Inr (py_round (duration * 1000)))
         = Inr (py_round ((0 + of_int (sum_list (map (tempo_at (pre @ m # rest)) [start_tick .. end_tick - 1]))
                                   * (1 / 1000000 / of_int tpb)) * 1000))"
    using tpb srt' mlo se rhi by (rule segment_finish)
  have code: "get_duration_ms start_tick end_tick msgs tpb
        = (case segment_loop end_tick tpb (zip (m # rest) rest) 0 start_tick of
            Inl err \<Rightarrow> Inl err
          | Inr (duration, curr_tick) \<Rightarrow>
              if tm_tick (last (m # rest)) < end_tick
              then (case tick2second (end_tick - curr_tick) (tm_data (last (m # rest))) tpb of
                      Inl err \<Rightarrow> Inl err
                    | Inr sec \<Rightarrow> Inr (py_round ((duration + sec) * 1000)))
              else Inr (py_round (duration * 1000)))"
    unfolding get_duration_ms_def i(1) option.case Let_def idx_def [symmetric] z l ..
  have ar: "(0 + of_int S * (1 / 1000000 / of_int tpb)) * 1000 = (of_int S / (1000 * of_int tpb) :: rat)"
    for S :: int
    using tpb by (simp add: field_simps)
  show ?thesis
    unfolding code fin ar spec_duration_ms_def msgs [symmetric] ..
qed

text \<open>
  C1 fails on the code: with the tempo map \<open>two_tempos\<close> and 480 ticks per beat, the 480
  ticks from 960 to 1440 all lie after the last tempo change and last 1000 ms at the
  tempo in force, but \<^verbatim>\<open>_get_duration_ms\<close> returns 1500. The search loop ends without a
  \<^verbatim>\<open>break\<close> with \<open>idx\<close> at the last entry, \<open>idx\<close> is then decremented, and the segment
  before the last entry is counted with the negative span from tick 960 back to tick
  480 at the earlier tempo.
\<close>

theorem duration_after_last_tempo_change:
  "get_duration_ms 960 1440 two_tempos 480 = Inr 1500
   \<and> spec_duration_ms 960 1440 two_tempos 480 = 1000"
proof -
  have code: "get_duration_ms 960 1440 two_tempos 480 = Inr 1500"
    by (simp add: get_duration_ms_def two_tempos_def tick2second_def py_round_def Let_def)
  have "spec_duration_ms 960 1440 two_tempos 480
          = py_round (of_int ((1440 - 960) * 1000000) / (1000 * of_int 480))"
    by (rule spec_duration_const) (simp_all add: two_tempos_late)
  also have "\<dots> = 1000" by (simp add: py_round_def Let_def)
  finally show ?thesis using code by simp
qed

end
